theory Spec2Isabelle
  imports Complex_Main "HOL-Library.Multiset" "HOL-Library.List_Lexorder"
begin

section \<open>Alternative (factoradic) solutions\<close>

text \<open>
  An \<open>alternative_solution_t\<close> carries the vector \<open>solution\<close> of C++ \<open>int\<close> genes; the
  operators of the repository read and write nothing else of it, so the model is the
  gene vector.  The values a C++ operator draws from the global \<open>generator\<close> are
  explicit arguments of its model.
\<close>

type_synonym alternative_solution_t = "int list"
type_synonym solution_t = "nat list"

text \<open>
  The positional bound, as \<open>mutation_change_one_city_descending\<close> and
  \<open>generate_neighbours\<close> use it: the gene at position \<open>i\<close> of a vector of size \<open>L\<close>
  ranges over \<open>0 .. L - 1 - i\<close>.
\<close>

definition well_formed :: "alternative_solution_t \<Rightarrow> bool" where
  "well_formed a =
     list_all (\<lambda>i. 0 \<le> a ! i \<and> a ! i < int (length a) - int i) [0..<length a]"

subsection \<open>Crossover (src/unnamed/part\_000)\<close>

text \<open>
  \<open>crossover_one_point\<close>: \<open>cross_point\<close> is the value drawn from
  \<open>uniform_int_distribution(0, a.solution.size() - 1)\<close>.  The loop reads
  \<open>b.solution[i]\<close> and writes \<open>new_b.solution[i]\<close> for every \<open>i\<close> from the cut to
  \<open>a.solution.size()\<close>; when \<open>b\<close> is the shorter vector that is an access out of range
  (undefined behaviour in C++), for which the model has no result.
\<close>

definition crossover_one_point ::
  "nat \<Rightarrow> alternative_solution_t \<Rightarrow> alternative_solution_t \<Rightarrow>
   (alternative_solution_t \<times> alternative_solution_t) option" where
  "crossover_one_point cross_point a b =
     (if cross_point < length a \<and> length b < length a then None
      else Some (fold (\<lambda>i (new_a, new_b). (new_a[i := b ! i], new_b[i := a ! i]))
                   [cross_point..<length a] (a, b)))"

text \<open>
  \<open>crossover_two_point\<close>: the two drawn cut points are put in order, then the genes at
  \<open>cross_point_a \<le> i < cross_point_b\<close> are exchanged.
\<close>

definition crossover_two_point ::
  "nat \<Rightarrow> nat \<Rightarrow> alternative_solution_t \<Rightarrow> alternative_solution_t \<Rightarrow>
   (alternative_solution_t \<times> alternative_solution_t) option" where
  "crossover_two_point cross_point_a cross_point_b a b =
     (let (cpa, cpb) = (if cross_point_a > cross_point_b
                        then (cross_point_b, cross_point_a)
                        else (cross_point_a, cross_point_b))
      in if cpa < cpb \<and> (length a < cpb \<or> length b < cpb) then None
         else Some (fold (\<lambda>i (new_a, new_b). (new_a[i := b ! i], new_b[i := a ! i]))
                      [cpa..<cpb] (a, b)))"

subsection \<open>Mutation (src/unnamed/part\_000)\<close>

text \<open>
  \<open>mutation_change_one_city_descending\<close>: \<open>u\<close> is the draw from
  \<open>uniform_real_distribution(0.0, 1.0)\<close>, \<open>mut_point\<close> the draw from
  \<open>uniform_int_distribution(0, size - 2)\<close> and \<open>v\<close> the draw from
  \<open>uniform_int_distribution(0, (size - 1) - mut_point)\<close>.  With fewer than two genes the
  first integer distribution has an empty range (undefined behaviour).  The source
  writes the new gene through a reference to its argument; the model returns the
  mutated vector.
\<close>

definition mutation_change_one_city_descending ::
  "real \<Rightarrow> nat \<Rightarrow> int \<Rightarrow> alternative_solution_t \<Rightarrow> real \<Rightarrow> alternative_solution_t option" where
  "mutation_change_one_city_descending u mut_point v a mutation_probability =
     (if u < mutation_probability
      then (if length a < 2 then None else Some (a[mut_point := v]))
      else Some a)"

subsection \<open>Decoding\<close>

text \<open>
  Selection without replacement, as the inner loop of \<open>init_pop\<close> in generic\_ga.cpp
  writes it (\<open>c.push_back(numbers[x]); numbers.erase(numbers.begin() + x)\<close>): each
  \<open>x\<close> selects the \<open>x\<close>-th of the numbers that remain, which is then removed.
  An \<open>x\<close> outside the remaining range reads \<open>numbers\<close> out of range (undefined
  behaviour): no result.
\<close>

fun decode_from :: "nat list \<Rightarrow> int list \<Rightarrow> nat list option" where
  "decode_from numbers [] = Some []"
| "decode_from numbers (x # xs) =
     (if x < 0 \<or> int (length numbers) \<le> x then None
      else (case decode_from (take (nat x) numbers @ drop (Suc (nat x)) numbers) xs of
              None \<Rightarrow> None
            | Some c \<Rightarrow> Some (numbers ! nat x # c)))"

text \<open>
  Modelled from the spec: \<open>alternative_solution_t::get_solution\<close> is declared in
  salesman.hpp, which is not among the sources.  The spec describes the decoding as
  this selection without replacement, started from the city indices \<open>0 .. n - 1\<close> and
  driven by the genes: gene \<open>k\<close> takes the \<open>k\<close>-th remaining city index.
\<close>

definition get_solution :: "alternative_solution_t \<Rightarrow> solution_t option" where
  "get_solution a = decode_from [0..<length a] a"

section \<open>Neighbour generation and local search (5/salesman.cpp)\<close>

text \<open>
  \<open>solution.size()\<close> is a \<open>size_t\<close>, so in \<open>generate_neighbours\<close> the gene (an \<open>int\<close>) is
  converted to a 64-bit unsigned value before the arithmetic: \<open>-1\<close> becomes
  \<open>2^64 - 1\<close>, and the sum wraps around.
\<close>

definition to_size_t :: "int \<Rightarrow> int" where
  "to_size_t x = x mod 2 ^ 64"

definition gene_plus :: "int \<Rightarrow> nat \<Rightarrow> int" where
  "gene_plus g m = to_size_t (g + 1) mod int m"

definition gene_minus :: "int \<Rightarrow> nat \<Rightarrow> int" where
  "gene_minus g m = to_size_t (to_size_t (g - 1) + int m) mod int m"

text \<open>
  The loop of \<open>generate_neighbours\<close>, with \<open>ret\<close> the list built so far.  For an empty
  gene vector the bound \<open>size() - 1\<close> of the source wraps around to \<open>2^64 - 1\<close> and the
  body indexes out of range; the properties below are about non-empty vectors.
\<close>

function generate_neighbours_loop ::
  "alternative_solution_t \<Rightarrow> nat \<Rightarrow> alternative_solution_t list \<Rightarrow> alternative_solution_t list" where
  "generate_neighbours_loop tmp_sol i ret =
     (if i < length tmp_sol - 1
      then generate_neighbours_loop tmp_sol (Suc i)
             (ret @ [tmp_sol[i := gene_plus (tmp_sol ! i) (length tmp_sol - i)],
                     tmp_sol[i := gene_minus (tmp_sol ! i) (length tmp_sol - i)]])
      else ret)"
  by pat_completeness auto
termination
  by (relation "measure (\<lambda>(tmp_sol, i, ret). length tmp_sol - 1 - i)") auto

declare generate_neighbours_loop.simps [simp del]

definition generate_neighbours :: "alternative_solution_t \<Rightarrow> alternative_solution_t list" where
  "generate_neighbours tmp_sol = generate_neighbours_loop tmp_sol 0 []"

text \<open>
  The search for the best neighbour, as both \<open>hillclimb_deteriministic\<close> and
  \<open>tabusearch\<close> write it: start from \<open>neighbours.back()\<close> and take every strictly
  better element in list order.  \<open>goal\<close> stands for \<open>s.get_solution().goal()\<close>, a
  \<open>double\<close>; both functions are declared in salesman.hpp, so the objective is a
  parameter.
\<close>

definition find_best ::
  "(alternative_solution_t \<Rightarrow> real) \<Rightarrow> alternative_solution_t list \<Rightarrow> alternative_solution_t" where
  "find_best goal neighbours =
     fold (\<lambda>sol current_best. if goal sol < goal current_best then sol else current_best)
       neighbours (last neighbours)"

text \<open>
  \<open>hillclimb_deteriministic\<close>.  The result is the final \<open>solution\<close>, the iteration
  number written to \<open>cerr\<close> when the function returns early, and (not in the source)
  the list of the successive values of \<open>solution\<close>.  With fewer than two genes the
  neighbour list is empty and \<open>neighbours.back()\<close> is undefined behaviour.
\<close>

function hillclimb_loop ::
  "(alternative_solution_t \<Rightarrow> real) \<Rightarrow> int \<Rightarrow> int \<Rightarrow> alternative_solution_t \<Rightarrow>
   alternative_solution_t list \<Rightarrow>
   alternative_solution_t \<times> int option \<times> alternative_solution_t list" where
  "hillclimb_loop goal iterations iteration solution trace =
     (if iteration < iterations
      then (let neighbours = generate_neighbours solution;
                current_best = find_best goal neighbours
            in if goal current_best < goal solution
               then hillclimb_loop goal iterations (iteration + 1) current_best
                      (trace @ [current_best])
               else (solution, Some iteration, trace))
      else (solution, None, trace))"
  by pat_completeness auto
termination
  by (relation "measure (\<lambda>(goal, iterations, iteration, solution, trace).
                           nat (iterations - iteration))") auto

declare hillclimb_loop.simps [simp del]

definition hillclimb_deteriministic ::
  "(alternative_solution_t \<Rightarrow> real) \<Rightarrow> alternative_solution_t \<Rightarrow> int \<Rightarrow>
   alternative_solution_t \<times> int option \<times> alternative_solution_t list" where
  "hillclimb_deteriministic goal start iterations =
     hillclimb_loop goal iterations 0 start [start]"

text \<open>
  \<open>operator==\<close> on alternative solutions compares \<open>a.solution[i]\<close> with
  \<open>b.solution.at(i)\<close> for every index of \<open>a\<close>; \<open>at\<close> throws \<open>std::out_of_range\<close>.
\<close>

datatype error = out_of_range

fun alt_eq :: "alternative_solution_t \<Rightarrow> alternative_solution_t \<Rightarrow> error + bool" where
  "alt_eq [] b = Inr True"
| "alt_eq (x # a) [] = Inl out_of_range"
| "alt_eq (x # a) (y # b) = (if x \<noteq> y then Inr False else alt_eq a b)"

fun in_tabu :: "alternative_solution_t list \<Rightarrow> alternative_solution_t \<Rightarrow> error + bool" where
  "in_tabu [] te = Inr False"
| "in_tabu (e # es) te =
     (case alt_eq e te of
        Inl err \<Rightarrow> Inl err
      | Inr True \<Rightarrow> Inr True
      | Inr False \<Rightarrow> in_tabu es te)"

fun remove_tabu ::
  "alternative_solution_t list \<Rightarrow> alternative_solution_t list \<Rightarrow>
   error + alternative_solution_t list" where
  "remove_tabu tabu_list [] = Inr []"
| "remove_tabu tabu_list (te # rest) =
     (case in_tabu tabu_list te of
        Inl err \<Rightarrow> Inl err
      | Inr t \<Rightarrow> (case remove_tabu tabu_list rest of
                    Inl err \<Rightarrow> Inl err
                  | Inr kept \<Rightarrow> Inr (if t then kept else te # kept)))"

text \<open>
  \<open>tabusearch\<close>: the list grows at the back and is popped at the front; the comparison
  \<open>tabu_list.size() >= max_tabu_size\<close> converts the \<open>int\<close> to \<open>size_t\<close>.  The function
  returns \<open>global_best.get_solution()\<close>.
\<close>

function tabu_loop ::
  "(alternative_solution_t \<Rightarrow> real) \<Rightarrow> int \<Rightarrow> int \<Rightarrow> int \<Rightarrow>
   alternative_solution_t list \<Rightarrow> alternative_solution_t \<Rightarrow> error + solution_t option" where
  "tabu_loop goal iterations max_tabu_size iteration tabu_list global_best =
     (if iteration < iterations
      then (case remove_tabu tabu_list (generate_neighbours (last tabu_list)) of
              Inl err \<Rightarrow> Inl err
            | Inr neighbours \<Rightarrow>
                if length neighbours \<le> 0
                then (if length tabu_list > 1
                      then tabu_loop goal iterations max_tabu_size (iteration + 1)
                             (tl tabu_list) global_best
                      else Inr (get_solution global_best))
                else (let current_best = find_best goal neighbours;
                          pushed = tabu_list @ [current_best];
                          new_best = (if goal current_best < goal global_best
                                      then current_best else global_best)
                      in tabu_loop goal iterations max_tabu_size (iteration + 1)
                           (if to_size_t max_tabu_size \<le> int (length pushed)
                            then tl pushed else pushed)
                           new_best))
      else Inr (get_solution global_best))"
  by pat_completeness auto
termination
  by (relation "measure (\<lambda>(goal, iterations, max_tabu_size, iteration, tabu_list, global_best).
                           nat (iterations - iteration))") auto

declare tabu_loop.simps [simp del]

definition tabusearch ::
  "(alternative_solution_t \<Rightarrow> real) \<Rightarrow> alternative_solution_t \<Rightarrow> int \<Rightarrow> int \<Rightarrow>
   error + solution_t option" where
  "tabusearch goal start iterations max_tabu_size =
     tabu_loop goal iterations max_tabu_size 0 [start] start"

section \<open>The genetic algorithm engine (9/src/salesman.cpp)\<close>

text \<open>
  \<open>genetic_algorithm\<close> draws from the global \<open>generator\<close> itself and through the
  operators it is given, so the generator state \<open>'g\<close> is threaded through every call:
  \<open>uniform_real\<close> is \<open>uniform_real_distribution<double>(0.0, 1.0)(generator)\<close>, and
  \<open>selection_f\<close>, \<open>crossover_f\<close>, \<open>mutation_f\<close> are the caller's operators.  \<open>n\<close> is
  \<open>initial_population.size()\<close>, the bound of all three loops.
\<close>

function select_parents ::
  "(real list \<Rightarrow> 'g \<Rightarrow> nat \<times> 'g) \<Rightarrow> nat \<Rightarrow> real list \<Rightarrow> 'a list \<Rightarrow> nat \<Rightarrow> 'a list \<Rightarrow> 'g \<Rightarrow>
   'a list \<times> 'g" where
  "select_parents selection_f n fit population i parents g =
     (if i < n
      then (case selection_f fit g of
              (k, g1) \<Rightarrow> select_parents selection_f n fit population (Suc i)
                           (parents @ [population ! k]) g1)
      else (parents, g))"
  by pat_completeness auto
termination
  by (relation "measure (\<lambda>(selection_f, n, fit, population, i, parents, g). n - i)") auto

declare select_parents.simps [simp del]

function crossover_loop ::
  "('g \<Rightarrow> real \<times> 'g) \<Rightarrow> ('a \<Rightarrow> 'a \<Rightarrow> 'g \<Rightarrow> ('a \<times> 'a) \<times> 'g) \<Rightarrow> real \<Rightarrow> nat \<Rightarrow> 'a list \<Rightarrow>
   nat \<Rightarrow> 'a list \<Rightarrow> 'g \<Rightarrow> 'a list \<times> 'g" where
  "crossover_loop uniform_real crossover_f crossover_probability n parents i children g =
     (if int i < int n - 1
      then (case uniform_real g of
              (u, g1) \<Rightarrow>
                if crossover_probability < u
                then (case crossover_f (parents ! i) (parents ! (i + 1)) g1 of
                        ((a, b), g2) \<Rightarrow>
                          crossover_loop uniform_real crossover_f crossover_probability n
                            parents (i + 2) (children @ [a, b]) g2)
                else crossover_loop uniform_real crossover_f crossover_probability n
                       parents (i + 2) (children @ [parents ! i, parents ! (i + 1)]) g1)
      else (children, g))"
  by pat_completeness auto
termination
  by (relation "measure (\<lambda>(uniform_real, crossover_f, crossover_probability, n, parents, i,
                            children, g). n - i)") auto

declare crossover_loop.simps [simp del]

function mutation_loop ::
  "('g \<Rightarrow> real \<times> 'g) \<Rightarrow> ('a \<Rightarrow> 'g \<Rightarrow> 'a \<times> 'g) \<Rightarrow> real \<Rightarrow> nat \<Rightarrow> nat \<Rightarrow> 'a list \<Rightarrow> 'g \<Rightarrow>
   'a list \<times> 'g" where
  "mutation_loop uniform_real mutation_f mutation_probability n i children g =
     (if int i < int n - 1
      then (case uniform_real g of
              (u, g1) \<Rightarrow>
                if mutation_probability < u
                then (case mutation_f (children ! i) g1 of
                        (c, g2) \<Rightarrow>
                          mutation_loop uniform_real mutation_f mutation_probability n
                            (i + 2) (children[i := c]) g2)
                else mutation_loop uniform_real mutation_f mutation_probability n
                       (i + 2) children g1)
      else (children, g))"
  by pat_completeness auto
termination
  by (relation "measure (\<lambda>(uniform_real, mutation_f, mutation_probability, n, i, children, g).
                           n - i)") auto

declare mutation_loop.simps [simp del]

text \<open>One pass through the body of the \<open>while\<close> loop: the new value of \<open>population\<close>.\<close>

definition ga_generation ::
  "('g \<Rightarrow> real \<times> 'g) \<Rightarrow> ('a \<Rightarrow> real) \<Rightarrow> (real list \<Rightarrow> 'g \<Rightarrow> nat \<times> 'g) \<Rightarrow>
   ('a \<Rightarrow> 'a \<Rightarrow> 'g \<Rightarrow> ('a \<times> 'a) \<times> 'g) \<Rightarrow> ('a \<Rightarrow> 'g \<Rightarrow> 'a \<times> 'g) \<Rightarrow> real \<Rightarrow> real \<Rightarrow>
   nat \<Rightarrow> 'a list \<Rightarrow> 'g \<Rightarrow> 'a list \<times> 'g" where
  "ga_generation uniform_real fitness_f selection_f crossover_f mutation_f
     crossover_probability mutation_probability n population g =
     (let fit = map fitness_f population
      in case select_parents selection_f n fit population 0 [] g of
           (parents, g1) \<Rightarrow>
             (case crossover_loop uniform_real crossover_f crossover_probability n
                     parents 0 [] g1 of
                (children, g2) \<Rightarrow>
                  mutation_loop uniform_real mutation_f mutation_probability n 0 children g2))"

text \<open>
  The value of \<open>population\<close> after \<open>k\<close> passes through the loop body, starting from
  \<open>initial_population\<close> (whose size stays the bound \<open>n\<close> of the loops).
\<close>

primrec ga_generations ::
  "('g \<Rightarrow> real \<times> 'g) \<Rightarrow> ('a \<Rightarrow> real) \<Rightarrow> (real list \<Rightarrow> 'g \<Rightarrow> nat \<times> 'g) \<Rightarrow>
   ('a \<Rightarrow> 'a \<Rightarrow> 'g \<Rightarrow> ('a \<times> 'a) \<times> 'g) \<Rightarrow> ('a \<Rightarrow> 'g \<Rightarrow> 'a \<times> 'g) \<Rightarrow> real \<Rightarrow> real \<Rightarrow>
   'a list \<Rightarrow> 'g \<Rightarrow> nat \<Rightarrow> 'a list \<times> 'g" where
  "ga_generations uniform_real fitness_f selection_f crossover_f mutation_f
     crossover_probability mutation_probability initial_population g 0 =
     (initial_population, g)"
| "ga_generations uniform_real fitness_f selection_f crossover_f mutation_f
     crossover_probability mutation_probability initial_population g (Suc k) =
     (case ga_generations uniform_real fitness_f selection_f crossover_f mutation_f
             crossover_probability mutation_probability initial_population g k of
        (population, g1) \<Rightarrow>
          ga_generation uniform_real fitness_f selection_f crossover_f mutation_f
            crossover_probability mutation_probability (length initial_population)
            population g1)"

text \<open>A generator for evaluation: the list of the reals still to be drawn.\<close>

definition next_real :: "real list \<Rightarrow> real \<times> real list" where
  "next_real g = (hd g, tl g)"

text \<open>
  Operators for evaluating the engine on concrete populations of integers: a selection
  that always returns index \<open>0\<close>, a crossover that returns its two parents, and a
  mutation that adds \<open>100\<close> to the individual, so that a mutated child is recognisable.
\<close>

definition select_first :: "real list \<Rightarrow> real list \<Rightarrow> nat \<times> real list" where
  "select_first fit g = (0, g)"

definition keep_parents :: "int \<Rightarrow> int \<Rightarrow> real list \<Rightarrow> (int \<times> int) \<times> real list" where
  "keep_parents a b g = ((a, b), g)"

definition mark_mutated :: "int \<Rightarrow> real list \<Rightarrow> int \<times> real list" where
  "mark_mutated c g = (c + 100, g)"

section \<open>Island migration (12\_ga\_island/generic\_ga.cpp)\<close>

type_synonym chromosome_t = "int list"

text \<open>
  \<open>std::max_element\<close> with the comparison \<open>fitness(a) < fitness(b)\<close>: the first element
  that no later one beats.
\<close>

definition max_element :: "(chromosome_t \<Rightarrow> real) \<Rightarrow> chromosome_t list \<Rightarrow> chromosome_t" where
  "max_element fitness xs =
     fold (\<lambda>x largest. if fitness largest < fitness x then x else largest) (tl xs) (hd xs)"

text \<open>
  The migration event of \<open>ep\<close> with \<open>random_replace = false\<close>.  Each deme is sorted by
  ascending fitness and loses its first two elements; the best of what remains in deme
  \<open>i\<close> is then appended to the demes \<open>(i + 1) % D\<close> and \<open>(i + D - 1) % D\<close> of the copy
  \<open>np_w_migrants\<close>.

  \<open>std::sort\<close> with the comparison \<open>fitness(a) < fitness(b)\<close> rearranges a deme into
  ascending fitness and leaves the order of equally fit elements open.  The sorting
  function is therefore the parameter \<open>std_sort\<close> of the model, and
  \<open>ascending_rearrangement\<close> says what the standard guarantees of its result; the
  properties are proved for every such function.

  A deme of fewer than two elements makes \<open>begin() + 2\<close> pass the end, and one of
  exactly two elements leaves an empty range for \<open>max_element\<close>, whose result is then
  dereferenced: undefined behaviour, no result in the model.
\<close>

definition ascending_rearrangement ::
  "(chromosome_t \<Rightarrow> real) \<Rightarrow> chromosome_t list \<Rightarrow> chromosome_t list \<Rightarrow> bool" where
  "ascending_rearrangement fitness deme sorted_deme =
     (mset sorted_deme = mset deme \<and> sorted (map fitness sorted_deme))"

definition drop_worst ::
  "(chromosome_t list \<Rightarrow> chromosome_t list) \<Rightarrow> chromosome_t list \<Rightarrow> chromosome_t list" where
  "drop_worst std_sort deme = drop 2 (std_sort deme)"

definition add_migrants ::
  "(chromosome_t \<Rightarrow> real) \<Rightarrow> chromosome_t list list \<Rightarrow> nat \<Rightarrow> chromosome_t list list \<Rightarrow>
   chromosome_t list list" where
  "add_migrants fitness new_populations i np_w_migrants =
     (let best_of_all = max_element fitness (new_populations ! i);
          D = length new_populations;
          right = (i + 1) mod D;
          np1 = np_w_migrants[right := np_w_migrants ! right @ [best_of_all]];
          left = (i + D - 1) mod D
      in np1[left := np1 ! left @ [best_of_all]])"

definition migration ::
  "(chromosome_t \<Rightarrow> real) \<Rightarrow> (chromosome_t list \<Rightarrow> chromosome_t list) \<Rightarrow>
   chromosome_t list list \<Rightarrow> chromosome_t list list option" where
  "migration fitness std_sort new_populations =
     (if list_ex (\<lambda>deme. length deme < 3) new_populations then None
      else (let sorted_populations = map (drop_worst std_sort) new_populations
            in Some (fold (add_migrants fitness sorted_populations)
                       [0..<length sorted_populations] sorted_populations)))"

section \<open>Brute force (5/salesman.cpp)\<close>

text \<open>
  Modelled from the spec: \<open>solution_t::next_solution\<close>, the constructor of \<open>solution_t\<close>
  and its \<open>operator==\<close> are declared in salesman.hpp, which is not among the sources.
  The spec calls \<open>next_solution\<close> a ``next permutation'' successor that cycles back to
  the initial ordering, and equality of tours permutation equality.  The model is
  \<open>std::next_permutation\<close> on the list of city indices: find the last position whose
  element is smaller than its right neighbour, exchange it with the last element
  greater than it, and reverse what follows; when there is no such position, reverse
  the whole list.
\<close>

fun replace_first_greater :: "nat \<Rightarrow> nat list \<Rightarrow> (nat \<times> nat list) option" where
  "replace_first_greater x [] = None"
| "replace_first_greater x (z # zs) =
     (if x < z then Some (z, x # zs)
      else (case replace_first_greater x zs of
              None \<Rightarrow> None
            | Some (y, r) \<Rightarrow> Some (y, z # r)))"

fun next_permutation :: "nat list \<Rightarrow> nat list option" where
  "next_permutation [] = None"
| "next_permutation (x # xs) =
     (case next_permutation xs of
        Some ys \<Rightarrow> Some (x # ys)
      | None \<Rightarrow> (case replace_first_greater x (rev xs) of
                   None \<Rightarrow> None
                 | Some (y, r) \<Rightarrow> Some (y # r)))"

definition next_solution :: "solution_t \<Rightarrow> solution_t" where
  "next_solution s = (case next_permutation s of Some s' \<Rightarrow> s' | None \<Rightarrow> rev s)"

text \<open>
  The \<open>do ... while\<close> loop of \<open>brute_force_find_solution\<close>; \<open>goal\<close> is
  \<open>solution_t::goal\<close> (salesman.hpp), a parameter.  Nothing in the loop itself bounds
  the number of passes.
\<close>

partial_function (option) brute_force_loop ::
  "(solution_t \<Rightarrow> real) \<Rightarrow> solution_t \<Rightarrow> solution_t \<Rightarrow> solution_t \<Rightarrow> solution_t option" where
  [code]: "brute_force_loop goal problem0 current best =
     (let current1 = next_solution current;
          best1 = (if goal best > goal current1 then current1 else best)
      in if \<not> (current1 = problem0)
         then brute_force_loop goal problem0 current1 best1
         else Some best1)"

text \<open>
  \<open>current\<close>, \<open>best\<close> and \<open>problem0\<close> all start as \<open>solution_t(problem_)\<close>, the initial
  ordering \<open>initial\<close> of the cities.
\<close>

definition brute_force_find_solution ::
  "(solution_t \<Rightarrow> real) \<Rightarrow> solution_t \<Rightarrow> solution_t option" where
  "brute_force_find_solution goal initial = brute_force_loop goal initial initial initial"

section \<open>Vocabulary of the properties\<close>

text \<open>
  A list of solutions in which every element is the best neighbour of its predecessor
  and has a strictly smaller goal: the moves that hill climbing accepts.
\<close>

fun improving_chain :: "(alternative_solution_t \<Rightarrow> real) \<Rightarrow> alternative_solution_t list \<Rightarrow> bool" where
  "improving_chain goal [] = True"
| "improving_chain goal [x] = True"
| "improving_chain goal (x # y # ys) =
     (y = find_best goal (generate_neighbours x) \<and> goal y < goal x \<and>
      improving_chain goal (y # ys))"

section \<open>Properties of the genetic operators\<close>

lemma fold_swap_genes:
  "length a = length b \<Longrightarrow> lo \<le> hi \<Longrightarrow> hi \<le> length a \<Longrightarrow>
   fold (\<lambda>i (new_a, new_b). (new_a[i := b ! i], new_b[i := a ! i])) [lo..<hi] (a, b) =
     (take lo a @ take (hi - lo) (drop lo b) @ drop hi a,
      take lo b @ take (hi - lo) (drop lo a) @ drop hi b)"
proof (induction "hi - lo" arbitrary: hi)
  case 0
  then show ?case by simp
next
  case (Suc d)
  then obtain h where h: "hi = Suc h" "lo \<le> h" "d = h - lo" "h < length a"
    by (cases hi) auto
  have step: "fold (\<lambda>i (new_a, new_b). (new_a[i := b ! i], new_b[i := a ! i])) [lo..<h] (a, b) =
     (take lo a @ take (h - lo) (drop lo b) @ drop h a,
      take lo b @ take (h - lo) (drop lo a) @ drop h b)"
    using Suc.hyps(1) [of h] h Suc.prems by simp
  have upd: "\<And>p q :: 'a list. length p = length q \<Longrightarrow> h < length p \<Longrightarrow>
      (take lo p @ take (h - lo) (drop lo q) @ drop h p)[h := q ! h] =
       take lo p @ take (Suc h - lo) (drop lo q) @ drop (Suc h) p"
  proof -
    fix p q :: "'a list"
    assume l: "length p = length q" and hl: "h < length p"
    have "take (Suc h - lo) (drop lo q) = take (h - lo) (drop lo q) @ [q ! h]"
      using h(2) hl l by (simp add: Suc_diff_le take_Suc_conv_app_nth)
    moreover have "drop h p = p ! h # drop (Suc h) p"
      using hl by (simp add: Cons_nth_drop_Suc)
    ultimately show "(take lo p @ take (h - lo) (drop lo q) @ drop h p)[h := q ! h] =
       take lo p @ take (Suc h - lo) (drop lo q) @ drop (Suc h) p"
      using h(2) hl l by (simp add: list_update_append min_def)
  qed
  show ?case
    using h Suc.prems step upd [of a b] upd [of b a] by simp
qed

lemma well_formed_nth:
  "well_formed a \<longleftrightarrow> (\<forall>i<length a. 0 \<le> a ! i \<and> a ! i < int (length a) - int i)"
  by (auto simp: well_formed_def list_all_iff)

lemma well_formed_mix:
  assumes "well_formed a" "well_formed b" "length a = length b"
    and "length c = length a" "\<forall>i<length a. c ! i = a ! i \<or> c ! i = b ! i"
  shows "well_formed c"
  using assms unfolding well_formed_nth by metis

lemma well_formed_Cons:
  "well_formed (x # xs) \<longleftrightarrow> 0 \<le> x \<and> x < int (length xs) + 1 \<and> well_formed xs"
  by (auto simp: well_formed_nth less_Suc_eq_0_disj)

lemma crossover_one_point_closed:
  assumes "length a = length b" "cp \<le> length a"
  shows "crossover_one_point cp a b = Some (take cp a @ drop cp b, take cp b @ drop cp a)"
  using assms fold_swap_genes [of a b cp "length a"]
  by (simp add: crossover_one_point_def)

lemma crossover_two_point_closed:
  assumes "length a = length b" "lo \<le> hi" "hi \<le> length a"
  shows "crossover_two_point lo hi a b =
           Some (take lo a @ take (hi - lo) (drop lo b) @ drop hi a,
                 take lo b @ take (hi - lo) (drop lo a) @ drop hi b)"
  using assms fold_swap_genes [of a b lo hi]
  by (simp add: crossover_two_point_def)

lemma crossover_two_point_swap:
  "crossover_two_point x y a b = crossover_two_point y x a b"
  by (simp add: crossover_two_point_def)

lemma splice_nth:
  assumes "length a = length b" "lo \<le> hi" "hi \<le> length a" "i < length a"
  shows "(take lo a @ take (hi - lo) (drop lo b) @ drop hi a) ! i = (if lo \<le> i \<and> i < hi then b ! i else a ! i)"
  using assms by (auto simp: nth_append min_def)

lemma well_formed_splice:
  assumes "well_formed a" "well_formed b" "length a = length b" "lo \<le> hi" "hi \<le> length a"
  shows "well_formed (take lo a @ take (hi - lo) (drop lo b) @ drop hi a)"
proof (rule well_formed_mix [OF assms(1,2,3)])
  show "length (take lo a @ take (hi - lo) (drop lo b) @ drop hi a) = length a"
    using assms by simp
  show "\<forall>i<length a. (take lo a @ take (hi - lo) (drop lo b) @ drop hi a) ! i = a ! i \<or>
        (take lo a @ take (hi - lo) (drop lo b) @ drop hi a) ! i = b ! i"
    using splice_nth [OF assms(3,4,5)] by simp
qed

lemma well_formed_update:
  assumes "well_formed a" "0 \<le> v" "v < int (length a) - int k"
  shows "well_formed (a[k := v])"
  using assms unfolding well_formed_nth by (auto simp: nth_list_update)

lemma decode_from_mset:
  "length numbers = length xs \<Longrightarrow> well_formed xs \<Longrightarrow>
   \<exists>c. decode_from numbers xs = Some c \<and> mset c = mset numbers"
proof (induction xs arbitrary: numbers)
  case Nil
  then show ?case by simp
next
  case (Cons x xs)
  from Cons.prems have x: "0 \<le> x" "nat x < length numbers" and wf: "well_formed xs"
    by (auto simp: well_formed_Cons)
  let ?rest = "take (nat x) numbers @ drop (Suc (nat x)) numbers"
  have "length ?rest = length xs"
    using x Cons.prems(1) by simp
  from Cons.IH [OF this wf] obtain c where c: "decode_from ?rest xs = Some c" "mset c = mset ?rest"
    by blast
  have "mset numbers = mset (take (nat x) numbers @ numbers ! nat x # drop (Suc (nat x)) numbers)"
    using id_take_nth_drop [OF x(2)] by simp
  then have "mset (numbers ! nat x # c) = mset numbers"
    using c(2) by simp
  then show ?case
    using x c(1) by simp
qed

lemma crossover_one_point_well_formed:
  assumes "well_formed a" "well_formed b" "length a = length b" "cp < length a"
  shows "\<exists>a' b'. crossover_one_point cp a b = Some (a', b') \<and> well_formed a' \<and> well_formed b'"
proof -
  have "well_formed (take cp a @ take (length a - cp) (drop cp b) @ drop (length a) a)"
    using well_formed_splice [OF assms(1,2,3), of cp "length a"] assms(4) by simp
  moreover have "well_formed (take cp b @ take (length b - cp) (drop cp a) @ drop (length b) b)"
    using well_formed_splice [OF assms(2,1), of cp "length b"] assms(3,4) by simp
  ultimately show ?thesis
    using crossover_one_point_closed [OF assms(3), of cp] assms(3,4) by simp
qed

lemma crossover_two_point_well_formed_ordered:
  assumes "well_formed a" "well_formed b" "length a = length b" "lo \<le> hi" "hi < length a"
  shows "\<exists>a' b'. crossover_two_point lo hi a b = Some (a', b') \<and> well_formed a' \<and> well_formed b'"
  using well_formed_splice [OF assms(1,2,3,4)] well_formed_splice [OF assms(2,1) _ assms(4)]
    crossover_two_point_closed [OF assms(3,4)] assms(3,5) by simp

lemma crossover_two_point_well_formed:
  assumes "well_formed a" "well_formed b" "length a = length b" "x < length a" "y < length a"
  shows "\<exists>a' b'. crossover_two_point x y a b = Some (a', b') \<and> well_formed a' \<and> well_formed b'"
proof (cases "x \<le> y")
  case True
  then show ?thesis
    using crossover_two_point_well_formed_ordered [OF assms(1,2,3) _ assms(5)] by simp
next
  case False
  then have "y \<le> x" by simp
  then show ?thesis
    using crossover_two_point_well_formed_ordered [OF assms(1,2,3) _ assms(4), of y]
      crossover_two_point_swap [of x y a b] by simp
qed

lemma mutation_well_formed:
  assumes "well_formed a" "mut_point + 2 \<le> length a" "0 \<le> v"
    and "v \<le> int (length a) - 1 - int mut_point"
  shows "\<exists>a'. mutation_change_one_city_descending u mut_point v a p = Some a' \<and> well_formed a'"
  using well_formed_update [OF assms(1,3), of mut_point] assms
  by (simp add: mutation_change_one_city_descending_def)

lemma get_solution_permutation:
  assumes "well_formed a"
  shows "\<exists>t. get_solution a = Some t \<and> mset t = mset [0..<length a]"
  using decode_from_mset [of "[0..<length a]" a] assms by (simp add: get_solution_def)

text \<open>
  Claim C2.  For well-formed parents of one length, one-point crossover (any cut point
  the source can draw), two-point crossover (any two cut points) and the descending
  single-gene mutation (any mutation point and new value the source can draw) return
  well-formed alternatives, and decoding a well-formed alternative of \<open>n\<close> genes
  returns a tour in which every index below \<open>n\<close> occurs exactly once.
\<close>

theorem operators_preserve_well_formed:
  assumes "well_formed a" "well_formed b" "length a = length b"
  shows "(\<forall>cross_point < length a.
            \<exists>a' b'. crossover_one_point cross_point a b = Some (a', b') \<and>
                    well_formed a' \<and> well_formed b') \<and>
         (\<forall>cross_point_a < length a. \<forall>cross_point_b < length a.
            \<exists>a' b'. crossover_two_point cross_point_a cross_point_b a b = Some (a', b') \<and>
                    well_formed a' \<and> well_formed b') \<and>
         (\<forall>u p mut_point v.
            mut_point + 2 \<le> length a \<and> 0 \<le> v \<and> v \<le> int (length a) - 1 - int mut_point \<longrightarrow>
            (\<exists>a'. mutation_change_one_city_descending u mut_point v a p = Some a' \<and>
                  well_formed a')) \<and>
         (\<exists>t. get_solution a = Some t \<and> length t = length a \<and> distinct t \<and>
              set t = {0..<length a})"
proof -
  obtain t where t: "get_solution a = Some t" "mset t = mset [0..<length a]"
    using get_solution_permutation [OF assms(1)] by blast
  have "length t = length a"
    using t(2) by (metis length_upt mset_eq_length minus_nat.diff_0)
  moreover have "distinct t"
    using t(2) by (metis distinct_upt mset_eq_imp_distinct_iff)
  moreover have "set t = {0..<length a}"
    using t(2) by (metis mset_eq_setD set_upt)
  ultimately have "\<exists>t. get_solution a = Some t \<and> length t = length a \<and> distinct t \<and>
              set t = {0..<length a}"
    using t(1) by blast
  then show ?thesis
    using crossover_one_point_well_formed [OF assms]
      crossover_two_point_well_formed [OF assms]
      mutation_well_formed [OF assms(1)]
    by blast
qed

theorem operators_preserve_well_formed_witness:
  "well_formed [2, 0, 1, 0] \<and> well_formed [1, 2, 0, 0] \<and>
   crossover_one_point 1 [2, 0, 1, 0] [1, 2, 0, 0] = Some ([2, 2, 0, 0], [1, 0, 1, 0]) \<and>
   well_formed [2, 2, 0, 0] \<and> well_formed [1, 0, 1, 0] \<and>
   crossover_two_point 2 0 [2, 0, 1, 0] [1, 2, 0, 0] = Some ([1, 2, 1, 0], [2, 0, 0, 0]) \<and>
   well_formed [1, 2, 1, 0] \<and> well_formed [2, 0, 0, 0] \<and>
   mutation_change_one_city_descending 0 1 2 [2, 0, 1, 0] (1 / 10) = Some [2, 2, 1, 0] \<and>
   well_formed [2, 2, 1, 0] \<and>
   get_solution [2, 0, 1, 0] = Some [2, 0, 3, 1]"
proof -
  have wf: "well_formed [2, 0, 1, 0]" "well_formed [1, 2, 0, 0]"
    by (simp_all add: well_formed_def)
  have len: "length [2, 0, 1, 0 :: int] = length [1, 2, 0, 0 :: int]"
    by simp
  note inst = operators_preserve_well_formed [OF wf len]
  have c1: "crossover_one_point 1 [2, 0, 1, 0] [1, 2, 0, 0] = Some ([2, 2, 0, 0], [1, 0, 1, 0])"
    by (simp add: crossover_one_point_def upt_rec)
  have c2: "crossover_two_point 2 0 [2, 0, 1, 0] [1, 2, 0, 0] = Some ([1, 2, 1, 0], [2, 0, 0, 0])"
    by (simp add: crossover_two_point_def upt_rec)
  have m: "mutation_change_one_city_descending 0 1 2 [2, 0, 1, 0] (1 / 10) = Some [2, 2, 1, 0]"
    by (simp add: mutation_change_one_city_descending_def)
  have g: "get_solution [2, 0, 1, 0] = Some [2, 0, 3, 1]"
    by (simp add: get_solution_def upt_rec)
  from inst have "\<exists>a' b'. crossover_one_point 1 [2, 0, 1, 0] [1, 2, 0, 0] = Some (a', b') \<and>
                    well_formed a' \<and> well_formed b'"
    by simp
  with c1 have w1: "well_formed [2, 2, 0, 0] \<and> well_formed [1, 0, 1, 0]" by simp
  from inst have "\<exists>a' b'. crossover_two_point 2 0 [2, 0, 1, 0] [1, 2, 0, 0] = Some (a', b') \<and>
                    well_formed a' \<and> well_formed b'"
    by simp
  with c2 have w2: "well_formed [1, 2, 1, 0] \<and> well_formed [2, 0, 0, 0]" by simp
  from inst have "\<exists>a'. mutation_change_one_city_descending 0 1 2 [2, 0, 1, 0] (1 / 10) = Some a' \<and>
                  well_formed a'"
    by simp
  with m have w3: "well_formed [2, 2, 1, 0]" by simp
  show ?thesis using wf c1 c2 m g w1 w2 w3 by simp
qed

lemma well_formed_last:
  assumes "well_formed a" "a \<noteq> []"
  shows "a ! (length a - 1) = 0"
proof -
  have "length a - 1 < length a" using assms(2) by simp
  then have "0 \<le> a ! (length a - 1) \<and> a ! (length a - 1) < int (length a) - int (length a - 1)"
    using assms(1) unfolding well_formed_nth by blast
  then show ?thesis using assms(2) by (cases a) auto
qed

lemma drop_last_singleton: "a \<noteq> [] \<Longrightarrow> drop (length a - 1) a = [a ! (length a - 1)]"
  by (metis append_butlast_last_id append_eq_conv_conj last_conv_nth length_butlast)

text \<open>
  Claim C8.  For well-formed parents of one length \<open>n > 0\<close>, one-point crossover with
  cut index \<open>0\<close> returns the parents exchanged, and with cut index \<open>n - 1\<close> it returns
  the parents themselves (the only gene exchanged is the last one, which is \<open>0\<close> in
  every well-formed alternative).
\<close>

theorem crossover_one_point_extreme_cuts:
  assumes "well_formed a" "well_formed b" "length a = length b" "a \<noteq> []"
  shows "crossover_one_point 0 a b = Some (b, a) \<and>
         crossover_one_point (length a - 1) a b = Some (a, b)"
proof -
  have b: "b \<noteq> []" using assms(3,4) by auto
  have la: "drop (length a - 1) a = [0]"
    using drop_last_singleton [OF assms(4)] well_formed_last [OF assms(1,4)] by simp
  have lb: "drop (length a - 1) b = [0]"
    using drop_last_singleton [OF b] well_formed_last [OF assms(2) b] assms(3) by simp
  have "take (length a - 1) a @ drop (length a - 1) b = a"
    using la lb by (metis append_take_drop_id)
  moreover have "take (length a - 1) b @ drop (length a - 1) a = b"
    using la lb by (metis append_take_drop_id)
  ultimately show ?thesis
    using crossover_one_point_closed [OF assms(3), of 0]
      crossover_one_point_closed [OF assms(3), of "length a - 1"] by simp
qed

theorem crossover_one_point_extreme_cuts_witness:
  "well_formed [2, 0, 1, 0] \<and> well_formed [1, 2, 0, 0] \<and>
   crossover_one_point 0 [2, 0, 1, 0] [1, 2, 0, 0] = Some ([1, 2, 0, 0], [2, 0, 1, 0]) \<and>
   crossover_one_point 3 [2, 0, 1, 0] [1, 2, 0, 0] = Some ([2, 0, 1, 0], [1, 2, 0, 0])"
  using crossover_one_point_extreme_cuts [of "[2, 0, 1, 0]" "[1, 2, 0, 0]"]
  by (simp add: well_formed_def eval_nat_numeral)

text \<open>
  Claim C9.  When the two cut points drawn by two-point crossover are equal, the
  exchanged range \<open>cross_point_a \<le> i < cross_point_b\<close> is empty and both children are
  the original parents, whatever the parents are.
\<close>

theorem crossover_two_point_equal_cuts:
  "crossover_two_point c c a b = Some (a, b)"
  by (simp add: crossover_two_point_def)

section \<open>Properties of neighbour generation\<close>

lemma generate_neighbours_loop_closed:
  "i \<le> length s - 1 \<Longrightarrow>
   generate_neighbours_loop s i ret =
     ret @ concat (map (\<lambda>j. [s[j := gene_plus (s ! j) (length s - j)],
                               s[j := gene_minus (s ! j) (length s - j)]]) [i..<length s - 1])"
proof (induction s i ret rule: generate_neighbours_loop.induct)
  case (1 tmp_sol i ret)
  show ?case
  proof (cases "i < length tmp_sol - 1")
    case True
    then show ?thesis
      using "1.IH" [OF True] by (subst generate_neighbours_loop.simps) (simp add: upt_rec [of i])
  next
    case False
    then show ?thesis
      using "1.prems" by (subst generate_neighbours_loop.simps) simp
  qed
qed

lemma generate_neighbours_closed:
  "generate_neighbours s =
     concat (map (\<lambda>j. [s[j := gene_plus (s ! j) (length s - j)],
                        s[j := gene_minus (s ! j) (length s - j)]]) [0..<length s - 1])"
  by (simp add: generate_neighbours_def generate_neighbours_loop_closed)

lemma concat_pairs_length: "length (concat (map (\<lambda>j. [f j, g j]) js)) = 2 * length js"
  by (induction js) auto

lemma concat_pairs_nth:
  "k < length js \<Longrightarrow>
   concat (map (\<lambda>j. [f j, g j]) js) ! (2 * k) = f (js ! k) \<and>
   concat (map (\<lambda>j. [f j, g j]) js) ! (2 * k + 1) = g (js ! k)"
proof (induction js arbitrary: k)
  case Nil
  then show ?case by simp
next
  case (Cons j js)
  then show ?case by (cases k) auto
qed

lemma gene_final_pair: "gene_plus g 2 = gene_minus g 2"
proof -
  have d: "(2::int) dvd 2 ^ 64" by simp
  have "gene_plus g 2 = (g + 1) mod 2"
    unfolding gene_plus_def to_size_t_def using mod_mod_cancel [OF d] by simp
  moreover have "gene_minus g 2 = (g - 1) mod 2"
  proof -
    have "gene_minus g 2 = ((g - 1) mod 2 ^ 64 + 2) mod 2"
      unfolding gene_minus_def to_size_t_def using mod_mod_cancel [OF d] by simp
    also have "\<dots> = ((g - 1) mod 2 ^ 64) mod 2" by simp
    also have "\<dots> = (g - 1) mod 2" using mod_mod_cancel [OF d] by simp
    finally show ?thesis .
  qed
  moreover have "(g + 1) mod 2 = (g - 1) mod (2::int)" by presburger
  ultimately show ?thesis by simp
qed

lemma gene_plus_plain:
  assumes "0 \<le> g" "g < 2 ^ 63"
  shows "gene_plus g m = (g + 1) mod int m"
proof -
  have "(g + 1) mod 2 ^ 64 = g + 1" using assms by simp
  then show ?thesis by (simp add: gene_plus_def to_size_t_def)
qed

lemma gene_minus_plain:
  assumes "0 \<le> g" "g < 2 ^ 63" "0 < m" "int m < 2 ^ 63"
  shows "gene_minus g m = (g - 1 + int m) mod int m"
proof (cases "g = 0")
  case True
  have "(- 1) mod (2 ^ 64 :: int) = 2 ^ 64 - 1" by simp
  then have "to_size_t (to_size_t (g - 1) + int m) = (2 ^ 64 - 1 + int m) mod 2 ^ 64"
    using True by (simp add: to_size_t_def)
  also have "\<dots> = (int m - 1) mod 2 ^ 64"
    by (metis (no_types, opaque_lifting) add.commute add_diff_eq diff_add_eq mod_add_self2)
  also have "\<dots> = int m - 1" using assms by simp
  finally show ?thesis using True by (simp add: gene_minus_def)
next
  case False
  then have "(g - 1) mod 2 ^ 64 = g - 1" using assms by simp
  moreover have "(g - 1 + int m) mod 2 ^ 64 = g - 1 + int m" using assms False by simp
  ultimately show ?thesis by (simp add: gene_minus_def to_size_t_def)
qed

lemma alt_eq_refl: "alt_eq a a = Inr True"
  by (induction a) auto

lemma alt_eq_same_length: "length a = length b \<Longrightarrow> alt_eq a b = Inr (a = b)"
  by (induction a b rule: alt_eq.induct) auto

text \<open>
  Claim C10.  For a gene vector of length \<open>L \<ge> 2\<close>, \<open>generate_neighbours\<close> returns
  \<open>2 (L - 1)\<close> variants in a fixed order: for \<open>i = 0, \<dots>, L - 2\<close>, first the vector with
  gene \<open>i\<close> incremented, then the one with gene \<open>i\<close> decremented, modulo \<open>L - i\<close> (the
  plain remainders whenever the gene is not negative).  The two variants of the last
  position \<open>i = L - 2\<close> are equal, so the returned list always has a duplicate.
\<close>

theorem generate_neighbours_order_and_duplicate:
  assumes "2 \<le> length s"
  shows "length (generate_neighbours s) = 2 * (length s - 1) \<and>
         (\<forall>i<length s - 1.
            generate_neighbours s ! (2 * i) = s[i := gene_plus (s ! i) (length s - i)] \<and>
            generate_neighbours s ! (2 * i + 1) = s[i := gene_minus (s ! i) (length s - i)]) \<and>
         (\<forall>i<length s - 1.
            0 \<le> s ! i \<and> s ! i < 2 ^ 31 \<and> length s < 2 ^ 31 \<longrightarrow>
            gene_plus (s ! i) (length s - i) = (s ! i + 1) mod int (length s - i) \<and>
            gene_minus (s ! i) (length s - i) =
              (s ! i - 1 + int (length s - i)) mod int (length s - i)) \<and>
         generate_neighbours s ! (2 * (length s - 2)) =
           generate_neighbours s ! (2 * (length s - 2) + 1) \<and>
         alt_eq (generate_neighbours s ! (2 * (length s - 2)))
                (generate_neighbours s ! (2 * (length s - 2) + 1)) = Inr True \<and>
         \<not> distinct (generate_neighbours s)"
proof -
  let ?gn = "generate_neighbours s"
  have len: "length ?gn = 2 * (length s - 1)"
    by (simp add: generate_neighbours_closed concat_pairs_length)
  have nth: "?gn ! (2 * i) = s[i := gene_plus (s ! i) (length s - i)] \<and>
             ?gn ! (2 * i + 1) = s[i := gene_minus (s ! i) (length s - i)]"
    if "i < length s - 1" for i
    using that
      concat_pairs_nth [of i "[0..<length s - 1]"
        "\<lambda>j. s[j := gene_plus (s ! j) (length s - j)]"
        "\<lambda>j. s[j := gene_minus (s ! j) (length s - j)]"]
    by (simp add: generate_neighbours_closed)
  have plain: "gene_plus (s ! i) (length s - i) = (s ! i + 1) mod int (length s - i) \<and>
               gene_minus (s ! i) (length s - i) =
                 (s ! i - 1 + int (length s - i)) mod int (length s - i)"
    if "i < length s - 1" "0 \<le> s ! i" "s ! i < 2 ^ 31" "length s < 2 ^ 31" for i
  proof -
    have g: "s ! i < 2 ^ 63" using that(3) by simp
    have m: "0 < length s - i" "int (length s - i) < 2 ^ 63"
      using that(1,4) by auto
    show ?thesis
      using gene_plus_plain [OF that(2) g] gene_minus_plain [OF that(2) g m] by simp
  qed
  have last_i: "length s - 2 < length s - 1" "length s - (length s - 2) = 2"
    using assms by auto
  have dup: "?gn ! (2 * (length s - 2)) = ?gn ! (2 * (length s - 2) + 1)"
    using nth [OF last_i(1)] last_i(2) gene_final_pair by simp
  have "2 * (length s - 2) < length ?gn" "2 * (length s - 2) + 1 < length ?gn"
    using len assms by auto
  then have nd: "\<not> distinct ?gn"
    using dup unfolding distinct_conv_nth
    by (metis add_eq_self_zero zero_neq_one)
  show ?thesis
    using len nth plain dup nd alt_eq_refl by simp
qed

theorem generate_neighbours_order_and_duplicate_witness:
  "2 \<le> length [2, 0, 1, 0 :: int] \<and>
   generate_neighbours [2, 0, 1, 0] =
     [[3, 0, 1, 0], [1, 0, 1, 0], [2, 1, 1, 0], [2, 2, 1, 0], [2, 0, 0, 0], [2, 0, 0, 0]] \<and>
   generate_neighbours [2, 0, 1, 0] ! 4 = generate_neighbours [2, 0, 1, 0] ! 5 \<and>
   \<not> distinct (generate_neighbours [2, 0, 1, 0])"
proof -
  have gn: "generate_neighbours [2, 0, 1, 0] =
     [[3, 0, 1, 0], [1, 0, 1, 0], [2, 1, 1, 0], [2, 2, 1, 0], [2, 0, 0, 0], [2, 0, 0, 0]]"
    by (simp add: generate_neighbours_def generate_neighbours_loop.simps gene_plus_def
        gene_minus_def to_size_t_def)
  have "2 \<le> length [2, 0, 1, 0 :: int]" by simp
  from generate_neighbours_order_and_duplicate [OF this]
  have "generate_neighbours [2, 0, 1, 0] ! (2 * (length [2, 0, 1, 0 :: int] - 2)) =
        generate_neighbours [2, 0, 1, 0] ! (2 * (length [2, 0, 1, 0 :: int] - 2) + 1)"
    and "\<not> distinct (generate_neighbours [2, 0, 1, 0])"
    by blast+
  then show ?thesis using gn by simp
qed

section \<open>Properties of deterministic hill climbing\<close>

lemma fold_best:
  "fold (\<lambda>sol current_best. if goal sol < goal current_best then sol else current_best) xs b
     \<in> insert b (set xs) \<and>
   goal (fold (\<lambda>sol current_best. if goal sol < goal current_best then sol else current_best) xs b)
     \<le> goal b \<and>
   (\<forall>x\<in>set xs.
      goal (fold (\<lambda>sol current_best. if goal sol < goal current_best then sol else current_best) xs b)
        \<le> (goal x :: real))"
proof (induction xs arbitrary: b)
  case Nil
  then show ?case by simp
next
  case (Cons x xs)
  let ?f = "\<lambda>sol current_best. if goal sol < goal current_best then sol else current_best"
  show ?case
  proof (cases "goal x < goal b")
    case True
    then show ?thesis using Cons.IH [of x] by fastforce
  next
    case False
    then show ?thesis using Cons.IH [of b] by fastforce
  qed
qed

lemma find_best_minimal:
  assumes "neighbours \<noteq> []"
  shows "find_best goal neighbours \<in> set neighbours \<and>
         (\<forall>x\<in>set neighbours. goal (find_best goal neighbours) \<le> goal x)"
  using fold_best [of goal neighbours "last neighbours"] assms
  by (auto simp: find_best_def)

lemma generate_neighbours_length:
  "nb \<in> set (generate_neighbours s) \<Longrightarrow> length nb = length s"
  by (auto simp: generate_neighbours_closed)

lemma generate_neighbours_nonempty:
  "2 \<le> length s \<Longrightarrow> generate_neighbours s \<noteq> []"
proof -
  assume "2 \<le> length s"
  moreover have "length (generate_neighbours s) = 2 * (length s - 1)"
    by (simp add: generate_neighbours_closed concat_pairs_length)
  ultimately show ?thesis by auto
qed

lemma find_best_neighbour:
  assumes "2 \<le> length s"
  shows "find_best goal (generate_neighbours s) \<in> set (generate_neighbours s) \<and>
         length (find_best goal (generate_neighbours s)) = length s \<and>
         (\<forall>nb\<in>set (generate_neighbours s). goal (find_best goal (generate_neighbours s)) \<le> goal nb)"
  using find_best_minimal [OF generate_neighbours_nonempty [OF assms], of goal]
    generate_neighbours_length by blast

lemma hillclimb_loop_chain:
  assumes "hillclimb_loop goal iterations iteration solution trace = (sol, diag, tr)"
  shows "\<exists>ext. tr = trace @ ext \<and> last (solution # ext) = sol \<and>
           improving_chain goal (solution # ext) \<and>
           (case diag of
              Some k \<Rightarrow> k = iteration + int (length ext) \<and> k < iterations \<and>
                        \<not> goal (find_best goal (generate_neighbours sol)) < goal sol
            | None \<Rightarrow> iteration + int (length ext) = max iteration iterations)"
  using assms
proof (induction goal iterations iteration solution trace rule: hillclimb_loop.induct)
  case (1 goal iterations iteration solution trace)
  let ?cb = "find_best goal (generate_neighbours solution)"
  show ?case
  proof (cases "iteration < iterations")
    case False
    then have "sol = solution" "diag = None" "tr = trace"
      using "1.prems" by (simp_all add: hillclimb_loop.simps)
    then show ?thesis using False by simp
  next
    case True
    show ?thesis
    proof (cases "goal ?cb < goal solution")
      case False
      then have "sol = solution" "diag = Some iteration" "tr = trace"
        using "1.prems" True by (simp_all add: hillclimb_loop.simps)
      then show ?thesis using True False by simp
    next
      case better: True
      have rec: "hillclimb_loop goal iterations (iteration + 1) ?cb (trace @ [?cb]) = (sol, diag, tr)"
        using "1.prems" True better by (subst (asm) hillclimb_loop.simps) (simp add: Let_def)
      from "1.IH" [OF True refl refl better rec]
      obtain ext where ext: "tr = (trace @ [?cb]) @ ext" "last (?cb # ext) = sol"
        "improving_chain goal (?cb # ext)"
        "(case diag of
              Some k \<Rightarrow> k = iteration + 1 + int (length ext) \<and> k < iterations \<and>
                        \<not> goal (find_best goal (generate_neighbours sol)) < goal sol
            | None \<Rightarrow> iteration + 1 + int (length ext) = max (iteration + 1) iterations)"
        by blast
      have "tr = trace @ (?cb # ext)" using ext(1) by simp
      moreover have "last (solution # ?cb # ext) = sol" using ext(2) by simp
      moreover have "improving_chain goal (solution # ?cb # ext)"
        using ext(3) better by simp
      moreover have "(case diag of
              Some k \<Rightarrow> k = iteration + int (length (?cb # ext)) \<and> k < iterations \<and>
                        \<not> goal (find_best goal (generate_neighbours sol)) < goal sol
            | None \<Rightarrow> iteration + int (length (?cb # ext)) = max iteration iterations)"
        using ext(4) True by (auto split: option.splits)
      ultimately show ?thesis by blast
    qed
  qed
qed

lemma improving_chain_nth:
  "improving_chain goal xs \<Longrightarrow> j + 1 < length xs \<Longrightarrow>
   xs ! (j + 1) = find_best goal (generate_neighbours (xs ! j)) \<and> goal (xs ! (j + 1)) < goal (xs ! j)"
proof (induction goal xs arbitrary: j rule: improving_chain.induct)
  case (3 goal x y ys)
  then show ?case by (cases j) auto
qed simp_all

lemma improving_chain_sorted:
  "improving_chain goal xs \<Longrightarrow> sorted_wrt (\<lambda>x y. goal y < goal x) xs"
proof (induction goal xs rule: improving_chain.induct)
  case (3 goal x y ys)
  then show ?case by fastforce
qed simp_all

lemma improving_chain_length:
  "improving_chain goal xs \<Longrightarrow> xs \<noteq> [] \<Longrightarrow> 2 \<le> length (hd xs) \<Longrightarrow>
   \<forall>x\<in>set xs. length x = length (hd xs)"
proof (induction goal xs rule: improving_chain.induct)
  case (3 goal x y ys)
  then show ?case using find_best_neighbour [of x goal] by auto
qed simp_all

text \<open>
  Claim C6.  For a start of at least two genes and any budget, deterministic hill
  climbing passes through a sequence of solutions, each the best neighbour of the one
  before and strictly better than it, so the goal never increases; it accepts at most
  \<open>iterations\<close> moves; and it returns early, reporting the iteration, exactly at the
  first solution whose best neighbour (a minimum of the goal over the whole neighbour
  list) is not strictly better.
\<close>

theorem hillclimb_deteriministic_monotone:
  assumes "2 \<le> length start"
    and "hillclimb_deteriministic goal start iterations = (sol, diag, trace)"
  shows "trace \<noteq> [] \<and> hd trace = start \<and> last trace = sol \<and>
         (\<forall>j. j + 1 < length trace \<longrightarrow>
            trace ! (j + 1) = find_best goal (generate_neighbours (trace ! j)) \<and>
            goal (trace ! (j + 1)) < goal (trace ! j)) \<and>
         (\<forall>i j. i \<le> j \<and> j < length trace \<longrightarrow> goal (trace ! j) \<le> goal (trace ! i)) \<and>
         (\<forall>x\<in>set trace.
            length x = length start \<and>
            find_best goal (generate_neighbours x) \<in> set (generate_neighbours x) \<and>
            (\<forall>nb\<in>set (generate_neighbours x).
               goal (find_best goal (generate_neighbours x)) \<le> goal nb)) \<and>
         (case diag of
            Some k \<Rightarrow> int (length trace) - 1 = k \<and> k < iterations \<and>
                      \<not> goal (find_best goal (generate_neighbours sol)) < goal sol
          | None \<Rightarrow> int (length trace) - 1 = max 0 iterations)"
proof -
  from hillclimb_loop_chain [OF assms(2) [unfolded hillclimb_deteriministic_def]]
  obtain ext where ext: "trace = [start] @ ext" "last (start # ext) = sol"
    "improving_chain goal (start # ext)"
    "(case diag of
        Some k \<Rightarrow> k = 0 + int (length ext) \<and> k < iterations \<and>
                  \<not> goal (find_best goal (generate_neighbours sol)) < goal sol
      | None \<Rightarrow> 0 + int (length ext) = max 0 iterations)"
    by blast
  have tr: "trace = start # ext" using ext(1) by simp
  have chain: "improving_chain goal trace" using ext(3) tr by simp
  have p1: "trace \<noteq> [] \<and> hd trace = start \<and> last trace = sol"
    using tr ext(2) by simp
  have p2: "\<forall>j. j + 1 < length trace \<longrightarrow>
            trace ! (j + 1) = find_best goal (generate_neighbours (trace ! j)) \<and>
            goal (trace ! (j + 1)) < goal (trace ! j)"
    using improving_chain_nth [OF chain] by blast
  have p3: "\<forall>i j. i \<le> j \<and> j < length trace \<longrightarrow> goal (trace ! j) \<le> goal (trace ! i)"
  proof (intro allI impI)
    fix i j assume ij: "i \<le> j \<and> j < length trace"
    show "goal (trace ! j) \<le> goal (trace ! i)"
    proof (cases "i = j")
      case True
      then show ?thesis by simp
    next
      case False
      then have "i < j" using ij by simp
      then have "goal (trace ! j) < goal (trace ! i)"
        using sorted_wrt_nth_less [OF improving_chain_sorted [OF chain], of i j] ij by simp
      then show ?thesis by simp
    qed
  qed
  have len: "\<forall>x\<in>set trace. length x = length start"
    using improving_chain_length [OF chain] tr assms(1) by simp
  have p4: "\<forall>x\<in>set trace.
            length x = length start \<and>
            find_best goal (generate_neighbours x) \<in> set (generate_neighbours x) \<and>
            (\<forall>nb\<in>set (generate_neighbours x).
               goal (find_best goal (generate_neighbours x)) \<le> goal nb)"
  proof
    fix x assume "x \<in> set trace"
    then have "2 \<le> length x" "length x = length start" using len assms(1) by simp_all
    then show "length x = length start \<and>
            find_best goal (generate_neighbours x) \<in> set (generate_neighbours x) \<and>
            (\<forall>nb\<in>set (generate_neighbours x).
               goal (find_best goal (generate_neighbours x)) \<le> goal nb)"
      using find_best_neighbour [of x goal] by blast
  qed
  have p5: "(case diag of
            Some k \<Rightarrow> int (length trace) - 1 = k \<and> k < iterations \<and>
                      \<not> goal (find_best goal (generate_neighbours sol)) < goal sol
          | None \<Rightarrow> int (length trace) - 1 = max 0 iterations)"
    using ext(4) tr by (auto split: option.splits)
  show ?thesis using p1 p2 p3 p4 p5 by blast
qed

lemma hillclimb_example:
  "hillclimb_deteriministic (\<lambda>a. real_of_int (sum_list a)) [2, 1, 0] 1000 =
     ([0, 0, 0], Some 2, [[2, 1, 0], [0, 1, 0], [0, 0, 0]])"
  by (simp add: hillclimb_deteriministic_def hillclimb_loop.simps generate_neighbours_def
      generate_neighbours_loop.simps find_best_def gene_plus_def gene_minus_def to_size_t_def
      Let_def)

theorem hillclimb_deteriministic_monotone_witness:
  "2 \<le> length [2, 1, 0 :: int] \<and>
   hillclimb_deteriministic (\<lambda>a. real_of_int (sum_list a)) [2, 1, 0] 1000 =
     ([0, 0, 0], Some 2, [[2, 1, 0], [0, 1, 0], [0, 0, 0]]) \<and>
   real_of_int (sum_list ([[2, 1, 0], [0, 1, 0], [0, 0, 0]] ! 2))
     \<le> real_of_int (sum_list ([[2, 1, 0], [0, 1, 0], [0, 0, 0]] ! 0)) \<and>
   [[2, 1, 0], [0, 1, 0], [0, 0, 0]] ! (0 + 1) =
     find_best (\<lambda>a. real_of_int (sum_list a))
       (generate_neighbours ([[2, 1, 0], [0, 1, 0], [0, 0, 0]] ! 0)) \<and>
   int (length [[2, 1, 0], [0, 1, 0], [0, 0, 0 :: int]]) - 1 = 2 \<and> (2 :: int) < 1000"
proof -
  have l: "2 \<le> length [2, 1, 0 :: int]" by simp
  note inst = hillclimb_deteriministic_monotone [OF l hillclimb_example]
  from inst have step: "\<forall>j. j + 1 < length [[2, 1, 0], [0, 1, 0], [0, 0, 0 :: int]] \<longrightarrow>
      [[2, 1, 0], [0, 1, 0], [0, 0, 0]] ! (j + 1) =
        find_best (\<lambda>a. real_of_int (sum_list a))
          (generate_neighbours ([[2, 1, 0], [0, 1, 0], [0, 0, 0]] ! j)) \<and>
      real_of_int (sum_list ([[2, 1, 0], [0, 1, 0], [0, 0, 0]] ! (j + 1)))
        < real_of_int (sum_list ([[2, 1, 0], [0, 1, 0], [0, 0, 0]] ! j))"
    by (rule conjunct1 [OF conjunct2 [OF conjunct2 [OF conjunct2]]])
  have "[[2, 1, 0], [0, 1, 0], [0, 0, 0]] ! (0 + 1) =
     find_best (\<lambda>a. real_of_int (sum_list a))
       (generate_neighbours ([[2, 1, 0], [0, 1, 0], [0, 0, 0]] ! 0))"
    using step [rule_format, of 0] by simp
  then show ?thesis
    using l hillclimb_example by simp
qed

section \<open>Properties of tabu search\<close>

lemma in_tabu_same_length:
  "\<forall>e\<in>set tabu_list. length e = length te \<Longrightarrow>
   in_tabu tabu_list te = Inr (te \<in> set tabu_list)"
proof (induction tabu_list)
  case Nil
  then show ?case by simp
next
  case (Cons e es)
  have a: "alt_eq e te = Inr (e = te)"
    using Cons.prems by (simp add: alt_eq_same_length)
  have ih: "in_tabu es te = Inr (te \<in> set es)"
    using Cons.IH Cons.prems by simp
  show ?case
  proof (cases "e = te")
    case True
    then have "alt_eq e te = Inr True" using a by simp
    then have "in_tabu (e # es) te = Inr True" by simp
    then show ?thesis using True by simp
  next
    case False
    then have "alt_eq e te = Inr False" using a by simp
    then have "in_tabu (e # es) te = in_tabu es te" by simp
    then show ?thesis using False ih by auto
  qed
qed

lemma remove_tabu_same_length:
  "\<forall>e\<in>set tabu_list. \<forall>nb\<in>set neighbours. length e = length nb \<Longrightarrow>
   remove_tabu tabu_list neighbours = Inr (filter (\<lambda>nb. nb \<notin> set tabu_list) neighbours)"
proof (induction neighbours)
  case Nil
  then show ?case by simp
next
  case (Cons nb rest)
  then have "in_tabu tabu_list nb = Inr (nb \<in> set tabu_list)"
    by (simp add: in_tabu_same_length)
  then show ?case using Cons by simp
qed

lemma gene_plus_two_differs: "gene_plus g 2 \<noteq> g"
proof -
  have d: "(2::int) dvd 2 ^ 64" by simp
  have "gene_plus g 2 = (g + 1) mod 2"
    unfolding gene_plus_def to_size_t_def using mod_mod_cancel [OF d] by simp
  then show ?thesis by presburger
qed

lemma neighbour_differs:
  assumes "2 \<le> length s"
  shows "\<exists>nb\<in>set (generate_neighbours s). nb \<noteq> s"
proof -
  let ?i = "length s - 2"
  let ?nb = "s[?i := gene_plus (s ! ?i) (length s - ?i)]"
  have i: "?i < length s - 1" "length s - ?i = 2" "?i < length s" using assms by auto
  have "?nb \<in> set [s[?i := gene_plus (s ! ?i) (length s - ?i)],
                     s[?i := gene_minus (s ! ?i) (length s - ?i)]]"
    by simp
  moreover have "?i \<in> set [0..<length s - 1]" using i(1) by simp
  ultimately have "?nb \<in> set (generate_neighbours s)"
    unfolding generate_neighbours_closed set_concat set_map by blast
  moreover have "?nb ! ?i \<noteq> s ! ?i"
    using i gene_plus_two_differs by simp
  then have "?nb \<noteq> s" by auto
  ultimately show ?thesis by blast
qed

lemma gene_in_bound:
  "0 < m \<Longrightarrow> 0 \<le> gene_plus g m \<and> gene_plus g m < int m \<and>
               0 \<le> gene_minus g m \<and> gene_minus g m < int m"
  by (simp add: gene_plus_def gene_minus_def)

lemma generate_neighbours_well_formed:
  assumes "well_formed s" "nb \<in> set (generate_neighbours s)"
  shows "well_formed nb"
proof -
  from assms(2) obtain i where i: "i < length s - 1"
    "nb = s[i := gene_plus (s ! i) (length s - i)] \<or> nb = s[i := gene_minus (s ! i) (length s - i)]"
    by (auto simp: generate_neighbours_closed)
  have m: "0 < length s - i" using i(1) by simp
  have b: "int (length s - i) = int (length s) - int i" using i(1) by simp
  have "well_formed (s[i := gene_plus (s ! i) (length s - i)])"
    using gene_in_bound [OF m, of "s ! i"] b
    by (intro well_formed_update [OF assms(1)]) simp_all
  moreover have "well_formed (s[i := gene_minus (s ! i) (length s - i)])"
    using gene_in_bound [OF m, of "s ! i"] b
    by (intro well_formed_update [OF assms(1)]) simp_all
  ultimately show ?thesis using i(2) by blast
qed

lemma generate_neighbours_one_gene: "length s = 1 \<Longrightarrow> generate_neighbours s = []"
proof -
  assume "length s = 1"
  moreover have "length (generate_neighbours s) = 2 * (length s - 1)"
    by (simp add: generate_neighbours_closed concat_pairs_length)
  ultimately show ?thesis by simp
qed

lemma remove_tabu_neighbours:
  assumes "\<forall>e\<in>set tabu_list. length e = length (last tabu_list)"
  shows "remove_tabu tabu_list (generate_neighbours (last tabu_list)) =
           Inr (filter (\<lambda>nb. nb \<notin> set tabu_list) (generate_neighbours (last tabu_list)))"
  using assms generate_neighbours_length [of _ "last tabu_list"]
  by (intro remove_tabu_same_length) simp

lemma all_tabu_iff:
  assumes "\<forall>e\<in>set tabu_list. length e = length (last tabu_list)"
  shows "(\<forall>nb\<in>set (generate_neighbours (last tabu_list)).
            \<exists>e\<in>set tabu_list. alt_eq e nb = Inr True) \<longleftrightarrow>
         filter (\<lambda>nb. nb \<notin> set tabu_list) (generate_neighbours (last tabu_list)) = []"
proof -
  have "alt_eq e nb = Inr (e = nb)"
    if "e \<in> set tabu_list" "nb \<in> set (generate_neighbours (last tabu_list))" for e nb
    using that assms generate_neighbours_length [of nb "last tabu_list"]
    by (simp add: alt_eq_same_length)
  then have "(\<forall>nb\<in>set (generate_neighbours (last tabu_list)).
            \<exists>e\<in>set tabu_list. alt_eq e nb = Inr True) \<longleftrightarrow>
        (\<forall>nb\<in>set (generate_neighbours (last tabu_list)). nb \<in> set tabu_list)"
    by auto
  then show ?thesis by (simp add: filter_empty_conv)
qed

lemma tabu_loop_return:
  assumes "iteration < iterations"
    and "remove_tabu tabu_list (generate_neighbours (last tabu_list)) = Inr []"
    and "\<not> 1 < length tabu_list"
  shows "tabu_loop goal iterations max_tabu_size iteration tabu_list global_best =
           Inr (get_solution global_best)"
  using assms by (subst tabu_loop.simps) simp

lemma tabu_loop_evict:
  assumes "iteration < iterations"
    and "remove_tabu tabu_list (generate_neighbours (last tabu_list)) = Inr []"
    and "1 < length tabu_list"
  shows "tabu_loop goal iterations max_tabu_size iteration tabu_list global_best =
           tabu_loop goal iterations max_tabu_size (iteration + 1) (tl tabu_list) global_best"
  using assms by (subst tabu_loop.simps) simp

lemma tabu_loop_push:
  assumes "iteration < iterations"
    and "remove_tabu tabu_list (generate_neighbours (last tabu_list)) = Inr neighbours"
    and "neighbours \<noteq> []"
  shows "tabu_loop goal iterations max_tabu_size iteration tabu_list global_best =
           tabu_loop goal iterations max_tabu_size (iteration + 1)
             (if to_size_t max_tabu_size \<le> int (length (tabu_list @ [find_best goal neighbours]))
              then tl (tabu_list @ [find_best goal neighbours])
              else tabu_list @ [find_best goal neighbours])
             (if goal (find_best goal neighbours) < goal global_best
              then find_best goal neighbours else global_best)"
  using assms by (subst tabu_loop.simps) (simp add: Let_def)

lemma tabu_loop_budget:
  assumes "\<not> iteration < iterations"
  shows "tabu_loop goal iterations max_tabu_size iteration tabu_list global_best =
           Inr (get_solution global_best)"
  using assms by (subst tabu_loop.simps) simp

text \<open>
  In every state of a run that starts from a well-formed alternative, the entries of
  the tabu list and the incumbent are well-formed and of one length; no comparison
  throws, and the run returns the decoding of a well-formed incumbent that is at least
  as good as the one it holds.
\<close>

lemma tabu_loop_returns_tour:
  assumes "tabu_list \<noteq> []" and "\<forall>e\<in>set tabu_list. well_formed e \<and> length e = n"
    and "well_formed global_best" and "length global_best = n"
  shows "\<exists>g tour. tabu_loop goal iterations max_tabu_size iteration tabu_list global_best =
                     Inr (Some tour) \<and>
           well_formed g \<and> length g = n \<and> goal g \<le> goal global_best \<and>
           get_solution g = Some tour \<and> mset tour = mset [0..<n]"
  using assms
proof (induction "nat (iterations - iteration)" arbitrary: iteration tabu_list global_best)
  case 0
  then have "\<not> iteration < iterations" by simp
  then show ?case
    using tabu_loop_budget [of iteration iterations goal max_tabu_size tabu_list global_best]
      get_solution_permutation [OF "0.prems"(3)] "0.prems"(3,4) by auto
next
  case (Suc d)
  then have it: "iteration < iterations" "d = nat (iterations - (iteration + 1))" by auto
  let ?last = "last tabu_list"
  let ?ns = "filter (\<lambda>nb. nb \<notin> set tabu_list) (generate_neighbours ?last)"
  have last: "?last \<in> set tabu_list" using Suc.prems(1) by simp
  then have same: "\<forall>e\<in>set tabu_list. length e = length ?last" using Suc.prems(2) by simp
  have rem: "remove_tabu tabu_list (generate_neighbours ?last) = Inr ?ns"
    using remove_tabu_neighbours [OF same] .
  show ?case
  proof (cases "?ns = []")
    case True
    show ?thesis
    proof (cases "1 < length tabu_list")
      case False
      then show ?thesis
        using tabu_loop_return [OF it(1) rem [unfolded True] False, of goal max_tabu_size global_best]
          get_solution_permutation [OF Suc.prems(3)] Suc.prems(3,4) by auto
    next
      case long: True
      then have ne: "tl tabu_list \<noteq> []" by (cases tabu_list) auto
      have sub: "\<forall>e\<in>set (tl tabu_list). well_formed e \<and> length e = n"
        using Suc.prems(2) by (meson list.set_sel(2) Suc.prems(1))
      from Suc.hyps(1) [OF it(2) ne sub Suc.prems(3,4)]
      show ?thesis
        using tabu_loop_evict [OF it(1) rem [unfolded True] long, of goal max_tabu_size global_best]
        by simp
    qed
  next
    case False
    let ?cb = "find_best goal ?ns"
    let ?pushed = "tabu_list @ [?cb]"
    let ?list = "if to_size_t max_tabu_size \<le> int (length ?pushed) then tl ?pushed else ?pushed"
    let ?best = "if goal ?cb < goal global_best then ?cb else global_best"
    have "?cb \<in> set ?ns" using find_best_minimal [OF False, of goal] by simp
    then have cbn: "?cb \<in> set (generate_neighbours ?last)" by simp
    have cb: "well_formed ?cb" "length ?cb = n"
      using generate_neighbours_well_formed [OF _ cbn] generate_neighbours_length [OF cbn]
        Suc.prems(2) last by auto
    have pushed: "\<forall>e\<in>set ?pushed. well_formed e \<and> length e = n"
      using Suc.prems(2) cb by simp
    have "tl ?pushed \<noteq> []" using Suc.prems(1) by (cases tabu_list) auto
    then have ne: "?list \<noteq> []" by simp
    have "set (tl ?pushed) \<subseteq> set ?pushed" by (metis list.set_sel(2) subsetI tl_Nil)
    then have sub: "\<forall>e\<in>set ?list. well_formed e \<and> length e = n"
      using pushed by (auto split: if_splits)
    have best: "well_formed ?best" "length ?best = n" "goal ?best \<le> goal global_best"
      using cb Suc.prems(3,4) by auto
    from Suc.hyps(1) [OF it(2) ne sub best(1,2)]
    obtain g tour where g:
      "tabu_loop goal iterations max_tabu_size (iteration + 1) ?list ?best = Inr (Some tour)"
      "well_formed g" "length g = n" "goal g \<le> goal ?best"
      "get_solution g = Some tour" "mset tour = mset [0..<n]"
      by blast
    have "goal g \<le> goal global_best" using g(4) best(3) by simp
    then show ?thesis
      using g tabu_loop_push [OF it(1) rem False, of goal max_tabu_size global_best]
      by auto
  qed
qed

lemma tabusearch_returns_tour:
  assumes "well_formed start" and "start \<noteq> []"
  shows "\<exists>g tour. tabusearch goal start iterations max_tabu_size = Inr (Some tour) \<and>
           well_formed g \<and> length g = length start \<and> goal g \<le> goal start \<and>
           get_solution g = Some tour \<and> mset tour = mset [0..<length start]"
  using tabu_loop_returns_tour [of "[start]" "length start" start goal iterations
      max_tabu_size 0] assms(1)
  by (simp add: tabusearch_def)

text \<open>
  Claim C7.  At the start of an iteration of tabu search in which the entries of the
  tabu list have the size of the newest one: if the list has exactly one entry and
  every neighbour generated from it compares equal to an entry of the list, the
  search returns at once, and what it returns is an ordinary result, the decoding of
  the incumbent \<open>global_best\<close> (a valid tour when the incumbent is well-formed).  With
  one entry this happens exactly when the entry has a single gene, which has no
  neighbours.  In every other case the search goes on to the next iteration: with all
  neighbours tabu and a longer list it drops the oldest entry, and otherwise it appends
  the best neighbour that is not tabu and updates the incumbent.
\<close>

theorem tabusearch_exhausted_escape:
  assumes "iteration < iterations"
    and "tabu_list \<noteq> []"
    and "last tabu_list \<noteq> []"
    and "\<forall>e\<in>set tabu_list. length e = length (last tabu_list)"
  shows "(length tabu_list = 1 \<and>
          (\<forall>nb\<in>set (generate_neighbours (last tabu_list)).
             \<exists>e\<in>set tabu_list. alt_eq e nb = Inr True) \<longrightarrow>
            tabu_loop goal iterations max_tabu_size iteration tabu_list global_best =
              Inr (get_solution global_best) \<and>
            (well_formed global_best \<longrightarrow>
               (\<exists>tour. get_solution global_best = Some tour \<and>
                       mset tour = mset [0..<length global_best]))) \<and>
         (length tabu_list = 1 \<longrightarrow>
            ((\<forall>nb\<in>set (generate_neighbours (last tabu_list)).
                \<exists>e\<in>set tabu_list. alt_eq e nb = Inr True) \<longleftrightarrow>
             length (last tabu_list) = 1)) \<and>
         (1 < length tabu_list \<and>
          (\<forall>nb\<in>set (generate_neighbours (last tabu_list)).
             \<exists>e\<in>set tabu_list. alt_eq e nb = Inr True) \<longrightarrow>
            tabu_loop goal iterations max_tabu_size iteration tabu_list global_best =
              tabu_loop goal iterations max_tabu_size (iteration + 1) (tl tabu_list)
                global_best) \<and>
         (\<not> (\<forall>nb\<in>set (generate_neighbours (last tabu_list)).
               \<exists>e\<in>set tabu_list. alt_eq e nb = Inr True) \<longrightarrow>
            (\<exists>neighbours.
               neighbours =
                 filter (\<lambda>nb. nb \<notin> set tabu_list) (generate_neighbours (last tabu_list)) \<and>
               neighbours \<noteq> [] \<and>
               tabu_loop goal iterations max_tabu_size iteration tabu_list global_best =
                 tabu_loop goal iterations max_tabu_size (iteration + 1)
                   (if to_size_t max_tabu_size
                         \<le> int (length (tabu_list @ [find_best goal neighbours]))
                    then tl (tabu_list @ [find_best goal neighbours])
                    else tabu_list @ [find_best goal neighbours])
                   (if goal (find_best goal neighbours) < goal global_best
                    then find_best goal neighbours else global_best)))"
proof -
  let ?all = "\<forall>nb\<in>set (generate_neighbours (last tabu_list)).
                \<exists>e\<in>set tabu_list. alt_eq e nb = Inr True"
  let ?ns = "filter (\<lambda>nb. nb \<notin> set tabu_list) (generate_neighbours (last tabu_list))"
  have rem: "remove_tabu tabu_list (generate_neighbours (last tabu_list)) = Inr ?ns"
    using remove_tabu_neighbours [OF assms(4)] .
  have all: "?all \<longleftrightarrow> ?ns = []"
    using all_tabu_iff [OF assms(4)] .
  have p1: "tabu_loop goal iterations max_tabu_size iteration tabu_list global_best =
              Inr (get_solution global_best)"
    if "length tabu_list = 1" ?all
    using that tabu_loop_return [OF assms(1), of tabu_list goal max_tabu_size global_best] rem all
    by simp
  have p1': "\<exists>tour. get_solution global_best = Some tour \<and>
                    mset tour = mset [0..<length global_best]"
    if "well_formed global_best"
    using get_solution_permutation [OF that] .
  have p2: "?all \<longleftrightarrow> length (last tabu_list) = 1" if one: "length tabu_list = 1"
  proof
    assume a: ?all
    show "length (last tabu_list) = 1"
    proof (rule ccontr)
      assume "length (last tabu_list) \<noteq> 1"
      moreover have "length (last tabu_list) \<noteq> 0" using assms(3) by simp
      ultimately have "2 \<le> length (last tabu_list)" by linarith
      from neighbour_differs [OF this] obtain nb where
        nb: "nb \<in> set (generate_neighbours (last tabu_list))" "nb \<noteq> last tabu_list"
        by blast
      from one obtain e where e: "tabu_list = [e]" by (cases tabu_list) auto
      have "nb \<in> set tabu_list" using a all nb(1) by (auto simp: filter_empty_conv)
      then show False using nb(2) e by simp
    qed
  next
    assume "length (last tabu_list) = 1"
    then show ?all by (simp add: generate_neighbours_one_gene)
  qed
  have p3: "tabu_loop goal iterations max_tabu_size iteration tabu_list global_best =
              tabu_loop goal iterations max_tabu_size (iteration + 1) (tl tabu_list)
                global_best"
    if "1 < length tabu_list" ?all
    using that tabu_loop_evict [OF assms(1), of tabu_list goal max_tabu_size global_best] rem all
    by simp
  have p4: "\<exists>neighbours.
               neighbours = ?ns \<and> neighbours \<noteq> [] \<and>
               tabu_loop goal iterations max_tabu_size iteration tabu_list global_best =
                 tabu_loop goal iterations max_tabu_size (iteration + 1)
                   (if to_size_t max_tabu_size
                         \<le> int (length (tabu_list @ [find_best goal neighbours]))
                    then tl (tabu_list @ [find_best goal neighbours])
                    else tabu_list @ [find_best goal neighbours])
                   (if goal (find_best goal neighbours) < goal global_best
                    then find_best goal neighbours else global_best)"
    if "\<not> ?all"
  proof -
    have ne: "?ns \<noteq> []" using that all by simp
    show ?thesis
      using tabu_loop_push [OF assms(1) rem ne, of goal max_tabu_size global_best] ne
      by blast
  qed
  show ?thesis
    using p1 p1' p2 p3 p4 by blast
qed

lemma tabu_example_neighbours:
  "generate_neighbours [1, 0] = [[0, 0], [0, 0]]"
  "generate_neighbours [0, 0] = [[1, 0], [1, 0]]"
  "generate_neighbours [0] = []"
  by (simp_all add: generate_neighbours_def generate_neighbours_loop.simps gene_plus_def
      gene_minus_def to_size_t_def)

theorem tabusearch_exhausted_escape_witness:
  "(0 :: int) < 3 \<and> last [[0 :: int]] \<noteq> [] \<and> length (last [[0 :: int]]) = 1 \<and>
   tabu_loop (\<lambda>a. real_of_int (sum_list a)) 3 50 0 [[0]] [0] = Inr (Some [0]) \<and>
   tabu_loop (\<lambda>a. real_of_int (sum_list a)) 3 50 0 [[1, 0]] [1, 0] =
     tabu_loop (\<lambda>a. real_of_int (sum_list a)) 3 50 1 [[1, 0], [0, 0]] [0, 0] \<and>
   tabu_loop (\<lambda>a. real_of_int (sum_list a)) 3 50 1 [[1, 0], [0, 0]] [0, 0] =
     tabu_loop (\<lambda>a. real_of_int (sum_list a)) 3 50 2 [[0, 0]] [0, 0]"
proof -
  let ?goal = "\<lambda>a. real_of_int (sum_list a)"
  have it: "(0 :: int) < 3" "(1 :: int) < 3" by simp_all
  have one: "tabu_loop ?goal 3 50 0 [[0]] [0] = Inr (Some [0])"
  proof -
    have h: "[[0 :: int]] \<noteq> []" "last [[0 :: int]] \<noteq> []"
      "\<forall>e\<in>set [[0 :: int]]. length e = length (last [[0 :: int]])"
      by simp_all
    have c: "length [[0 :: int]] = 1 \<and>
             (\<forall>nb\<in>set (generate_neighbours (last [[0]])). \<exists>e\<in>set [[0]]. alt_eq e nb = Inr True)"
      by (simp add: tabu_example_neighbours)
    have "tabu_loop ?goal 3 50 0 [[0]] [0] = Inr (get_solution [0])"
      using conjunct1 [OF tabusearch_exhausted_escape [OF it(1) h, of ?goal 50 "[0]"]] c
      by blast
    then show ?thesis by (simp add: get_solution_def)
  qed
  have push: "tabu_loop ?goal 3 50 0 [[1, 0]] [1, 0] =
                tabu_loop ?goal 3 50 1 [[1, 0], [0, 0]] [0, 0]"
  proof -
    have h: "[[1, 0 :: int]] \<noteq> []" "last [[1, 0 :: int]] \<noteq> []"
      "\<forall>e\<in>set [[1, 0 :: int]]. length e = length (last [[1, 0 :: int]])"
      by simp_all
    have c: "\<not> (\<forall>nb\<in>set (generate_neighbours (last [[1, 0]])).
                  \<exists>e\<in>set [[1, 0]]. alt_eq e nb = Inr True)"
      by (simp add: tabu_example_neighbours)
    from conjunct2 [OF conjunct2 [OF conjunct2
          [OF tabusearch_exhausted_escape [OF it(1) h, of ?goal 50 "[1, 0]"]]]] c
    obtain neighbours where n:
      "neighbours = filter (\<lambda>nb. nb \<notin> set [[1, 0]]) (generate_neighbours (last [[1, 0]]))"
      "tabu_loop ?goal 3 50 0 [[1, 0]] [1, 0] =
         tabu_loop ?goal 3 50 (0 + 1)
           (if to_size_t 50 \<le> int (length ([[1, 0]] @ [find_best ?goal neighbours]))
            then tl ([[1, 0]] @ [find_best ?goal neighbours])
            else [[1, 0]] @ [find_best ?goal neighbours])
           (if ?goal (find_best ?goal neighbours) < ?goal [1, 0]
            then find_best ?goal neighbours else [1, 0])"
      by blast
    have "neighbours = [[0, 0], [0, 0]]"
      using n(1) by (simp add: tabu_example_neighbours)
    then show ?thesis
      using n(2) by (simp add: find_best_def to_size_t_def)
  qed
  have evict: "tabu_loop ?goal 3 50 1 [[1, 0], [0, 0]] [0, 0] =
                 tabu_loop ?goal 3 50 2 [[0, 0]] [0, 0]"
  proof -
    have h: "[[1, 0], [0, 0 :: int]] \<noteq> []" "last [[1, 0], [0, 0 :: int]] \<noteq> []"
      "\<forall>e\<in>set [[1, 0], [0, 0 :: int]]. length e = length (last [[1, 0], [0, 0 :: int]])"
      by simp_all
    have c: "1 < length [[1, 0], [0, 0 :: int]] \<and>
             (\<forall>nb\<in>set (generate_neighbours (last [[1, 0], [0, 0]])).
                \<exists>e\<in>set [[1, 0], [0, 0]]. alt_eq e nb = Inr True)"
      by (simp add: tabu_example_neighbours)
    from conjunct1 [OF conjunct2 [OF conjunct2
          [OF tabusearch_exhausted_escape [OF it(2) h, of ?goal 50 "[0, 0]"]]]] c
    show ?thesis by simp
  qed
  show ?thesis using one push evict by simp
qed

section \<open>Properties of the genetic algorithm engine\<close>

lemma select_parents_length:
  "length (fst (select_parents selection_f n fit population i parents g)) =
     length parents + (n - i)"
proof (induction selection_f n fit population i parents g rule: select_parents.induct)
  case (1 selection_f n fit population i parents g)
  show ?case
  proof (cases "i < n")
    case True
    obtain k g1 where sel: "selection_f fit g = (k, g1)" by (cases "selection_f fit g")
    show ?thesis
      using True sel "1.IH" [OF True sel [symmetric]]
      by (subst select_parents.simps) simp
  next
    case False
    then show ?thesis by (subst select_parents.simps) simp
  qed
qed

lemma crossover_loop_length:
  "length (fst (crossover_loop uniform_real crossover_f crossover_probability n parents i
                  children g)) =
     length children + 2 * ((n - i) div 2)"
proof (induction uniform_real crossover_f crossover_probability n parents i children g
       rule: crossover_loop.induct)
  case (1 uniform_real crossover_f crossover_probability n parents i children g)
  show ?case
  proof (cases "int i < int n - 1")
    case False
    then have "(n - i) div 2 = 0" by auto
    then show ?thesis using False by (subst crossover_loop.simps) simp
  next
    case True
    then have step: "2 * ((n - i) div 2) = 2 + 2 * ((n - (i + 2)) div 2)" by presburger
    obtain u g1 where u: "uniform_real g = (u, g1)" by (cases "uniform_real g")
    show ?thesis
    proof (cases "crossover_probability < u")
      case cross: True
      obtain a b g2 where c: "crossover_f (parents ! i) (parents ! (i + 1)) g1 = ((a, b), g2)"
        by (metis surj_pair)
      show ?thesis
        using True u cross c step "1.IH"(1)
        by (subst crossover_loop.simps) simp
    next
      case False
      show ?thesis
        using True u False step "1.IH"(2) [OF True u [symmetric] False]
        by (subst crossover_loop.simps) simp
    qed
  qed
qed

lemma mutation_loop_length:
  "length (fst (mutation_loop uniform_real mutation_f mutation_probability n i children g)) =
     length children"
proof (induction uniform_real mutation_f mutation_probability n i children g
       rule: mutation_loop.induct)
  case (1 uniform_real mutation_f mutation_probability n i children g)
  show ?case
  proof (cases "int i < int n - 1")
    case False
    then show ?thesis by (subst mutation_loop.simps) simp
  next
    case True
    obtain u g1 where u: "uniform_real g = (u, g1)" by (cases "uniform_real g")
    show ?thesis
    proof (cases "mutation_probability < u")
      case mut: True
      obtain c g2 where c: "mutation_f (children ! i) g1 = (c, g2)"
        by (cases "mutation_f (children ! i) g1")
      show ?thesis
        using True u mut c "1.IH"(1) [OF True u [symmetric] mut c [symmetric]]
        by (subst mutation_loop.simps) simp
    next
      case False
      show ?thesis
        using True u False "1.IH"(2) [OF True u [symmetric] False]
        by (subst mutation_loop.simps) simp
    qed
  qed
qed

text \<open>The mutation loop steps by two from index \<open>0\<close>: a child at an odd index is never touched.\<close>

lemma mutation_loop_odd_untouched:
  "even i \<Longrightarrow> odd j \<Longrightarrow>
   fst (mutation_loop uniform_real mutation_f mutation_probability n i children g) ! j =
     children ! j"
proof (induction uniform_real mutation_f mutation_probability n i children g
       rule: mutation_loop.induct)
  case (1 uniform_real mutation_f mutation_probability n i children g)
  show ?case
  proof (cases "int i < int n - 1")
    case False
    then show ?thesis by (subst mutation_loop.simps) simp
  next
    case True
    have ne: "i \<noteq> j" using "1.prems" by auto
    have ev: "even (i + 2)" using "1.prems" by simp
    obtain u g1 where u: "uniform_real g = (u, g1)" by (cases "uniform_real g")
    show ?thesis
    proof (cases "mutation_probability < u")
      case mut: True
      obtain c g2 where c: "mutation_f (children ! i) g1 = (c, g2)"
        by (cases "mutation_f (children ! i) g1")
      show ?thesis
        using True u mut c ne
          "1.IH"(1) [OF True u [symmetric] mut c [symmetric] ev "1.prems"(2)]
        by (subst mutation_loop.simps) simp
    next
      case False
      show ?thesis
        using True u False "1.IH"(2) [OF True u [symmetric] False ev "1.prems"(2)]
        by (subst mutation_loop.simps) simp
    qed
  qed
qed

lemma ga_generation_length:
  "length (fst (ga_generation uniform_real fitness_f selection_f crossover_f mutation_f
                  crossover_probability mutation_probability n population g)) =
     2 * (n div 2)"
proof -
  obtain parents g1 where p:
    "select_parents selection_f n (map fitness_f population) population 0 [] g = (parents, g1)"
    by (metis surj_pair)
  obtain children g2 where c:
    "crossover_loop uniform_real crossover_f crossover_probability n parents 0 [] g1 =
       (children, g2)"
    by (metis surj_pair)
  have "length children = 2 * (n div 2)"
    using crossover_loop_length [of uniform_real crossover_f crossover_probability n parents 0
        "[]" g1] c by simp
  then show ?thesis
    using p c mutation_loop_length [of uniform_real mutation_f mutation_probability n 0 children g2]
    by (simp add: ga_generation_def)
qed

text \<open>
  Claim C3 (the code departs from it).  With the mutation probability set to \<open>1\<close>, where
  the claim has every child mutated, the mutation loop of the engine mutates no child
  at all; with the probability set to \<open>0\<close>, where the claim has none mutated, it
  mutates the children at the even indices and leaves those at the odd indices.
\<close>

theorem mutation_loop_gate_inverted_and_odd_skipped:
  "mutation_loop next_real mark_mutated 1 4 0 [10, 20, 30, 40] [1 / 2, 1 / 2] =
     ([10, 20, 30, 40], []) \<and>
   mutation_loop next_real mark_mutated 0 4 0 [10, 20, 30, 40] [1 / 2, 1 / 2] =
     ([110, 20, 130, 40], [])"
  by (simp add: mutation_loop.simps next_real_def mark_mutated_def)

text \<open>
  Claim C4 (amended).  With an initial population of \<open>N \<ge> 2\<close> individuals, the population
  after every generation is the child generation and has exactly \<open>2 * (N div 2)\<close>
  individuals: \<open>N\<close> when \<open>N\<close> is even, \<open>N - 1\<close> when \<open>N\<close> is odd.
\<close>

theorem ga_population_size:
  assumes "2 \<le> length initial_population" and "1 \<le> k"
  shows "length (fst (ga_generations uniform_real fitness_f selection_f crossover_f mutation_f
                        crossover_probability mutation_probability initial_population g k)) =
           2 * (length initial_population div 2) \<and>
         (even (length initial_population) \<longrightarrow>
            length (fst (ga_generations uniform_real fitness_f selection_f crossover_f mutation_f
                           crossover_probability mutation_probability initial_population g k)) =
              length initial_population) \<and>
         (odd (length initial_population) \<longrightarrow>
            length (fst (ga_generations uniform_real fitness_f selection_f crossover_f mutation_f
                           crossover_probability mutation_probability initial_population g k)) =
              length initial_population - 1)"
proof -
  from assms(2) obtain k' where k: "k = Suc k'" by (cases k) auto
  obtain population g1 where prev:
    "ga_generations uniform_real fitness_f selection_f crossover_f mutation_f
       crossover_probability mutation_probability initial_population g k' = (population, g1)"
    by (metis surj_pair)
  have "length (fst (ga_generations uniform_real fitness_f selection_f crossover_f mutation_f
                        crossover_probability mutation_probability initial_population g k)) =
           2 * (length initial_population div 2)"
    using k prev ga_generation_length [of uniform_real fitness_f selection_f crossover_f
        mutation_f crossover_probability mutation_probability "length initial_population"
        population g1]
    by simp
  then show ?thesis by (auto elim: oddE)
qed

theorem ga_population_size_witness:
  "2 \<le> length [1, 2, 3, 4 :: int] \<and> (1 :: nat) \<le> 2 \<and>
   length (fst (ga_generations next_real real_of_int select_first keep_parents mark_mutated
                  (9 / 10) (1 / 10) [1, 2, 3, 4] [1 / 2, 1 / 2, 1 / 2, 1 / 2, 1 / 2, 1 / 2,
                  1 / 2, 1 / 2] 2)) = 4"
proof -
  have h: "2 \<le> length [1, 2, 3, 4 :: int]" "(1 :: nat) \<le> 2" by simp_all
  show ?thesis
    using ga_population_size [OF h, of next_real real_of_int select_first keep_parents
        mark_mutated "9 / 10" "1 / 10"
        "[1 / 2, 1 / 2, 1 / 2, 1 / 2, 1 / 2, 1 / 2, 1 / 2, 1 / 2]"]
    by simp
qed

theorem ga_population_size_odd_counterexample:
  "length (fst (ga_generations next_real real_of_int select_first keep_parents mark_mutated
                  (9 / 10) (1 / 10) [1, 2, 3] [1 / 2, 1 / 2] (Suc 0))) = 2 \<and>
   length (fst (ga_generations next_real real_of_int select_first keep_parents mark_mutated
                  (9 / 10) (1 / 10) [1, 2, 3] [1 / 2, 1 / 2] (Suc 0))) \<noteq> length [1, 2, 3 :: int]"
  by (simp add: ga_generation_def select_parents.simps crossover_loop.simps
      mutation_loop.simps next_real_def select_first_def keep_parents_def mark_mutated_def)

section \<open>Properties of island migration\<close>

lemma ring_right_unique:
  assumes "j < D" "i < (D :: nat)"
  shows "(i + 1) mod D = j \<longleftrightarrow> i = (j + D - 1) mod D"
proof (cases "i + 1 < D")
  case True
  then show ?thesis using assms
    by (cases "j = 0") (auto simp: mod_if)
next
  case False
  then have "i + 1 = D" using assms by simp
  then show ?thesis using assms
    by (cases "j = 0") (auto simp: mod_if)
qed

lemma ring_left_unique:
  assumes "j < D" "i < (D :: nat)"
  shows "(i + D - 1) mod D = j \<longleftrightarrow> i = (j + 1) mod D"
  using assms
  by (cases "i = 0") (auto simp: mod_if)

lemma max_element_greatest:
  assumes "xs \<noteq> []"
  shows "max_element fitness xs \<in> set xs \<and>
         (\<forall>x\<in>set xs. fitness x \<le> fitness (max_element fitness xs))"
proof -
  have gen: "fold (\<lambda>x largest. if fitness largest < fitness x then x else largest) ys b
               \<in> insert b (set ys) \<and>
             fitness b \<le> fitness (fold (\<lambda>x largest. if fitness largest < fitness x then x else largest) ys b) \<and>
             (\<forall>x\<in>set ys. fitness x \<le> fitness (fold (\<lambda>x largest. if fitness largest < fitness x then x else largest) ys b))"
    for ys b
  proof (induction ys arbitrary: b)
    case Nil
    then show ?case by simp
  next
    case (Cons y ys)
    show ?case
    proof (cases "fitness b < fitness y")
      case True
      then show ?thesis using Cons.IH [of y] by fastforce
    next
      case False
      then show ?thesis using Cons.IH [of b] by fastforce
    qed
  qed
  obtain y ys where xs: "xs = y # ys" using assms by (cases xs) auto
  show ?thesis using gen [of ys y] by (auto simp: max_element_def xs)
qed

lemma add_migrants_length:
  "length (add_migrants fitness nps i np) = length np"
  by (simp add: add_migrants_def Let_def)

lemma add_migrants_nth:
  assumes "length np = length nps" "j < length nps"
  shows "mset (add_migrants fitness nps i np ! j) =
           mset (np ! j) +
           (if (i + 1) mod length nps = j then {#max_element fitness (nps ! i)#} else {#}) +
           (if (i + length nps - 1) mod length nps = j
            then {#max_element fitness (nps ! i)#} else {#})"
  using assms by (auto simp: add_migrants_def Let_def nth_list_update)

lemma fold_add_migrants_length:
  "length (fold (add_migrants fitness nps) is np) = length np"
  by (induction "is" arbitrary: np) (simp_all add: add_migrants_length)

lemma fold_add_migrants_nth:
  assumes "length np = length nps" "j < length nps"
  shows "mset (fold (add_migrants fitness nps) is np ! j) =
           mset (np ! j) +
           image_mset (\<lambda>i. max_element fitness (nps ! i))
             (filter_mset (\<lambda>i. (i + 1) mod length nps = j) (mset is)) +
           image_mset (\<lambda>i. max_element fitness (nps ! i))
             (filter_mset (\<lambda>i. (i + length nps - 1) mod length nps = j) (mset is))"
  using assms
proof (induction "is" arbitrary: np)
  case Nil
  then show ?case by simp
next
  case (Cons i "is")
  have l: "length (add_migrants fitness nps i np) = length nps"
    using Cons.prems(1) by (simp add: add_migrants_length)
  show ?case
    using Cons.IH [OF l Cons.prems(2)] add_migrants_nth [OF Cons.prems, of fitness i]
    by simp
qed

lemma filter_ring_right:
  assumes "j < D"
  shows "filter_mset (\<lambda>i. (i + 1) mod D = j) (mset [0..<D]) = {#(j + D - 1) mod D#}"
proof -
  have "{i \<in> {0..<D}. (i + 1) mod D = j} = {(j + D - 1) mod D}"
    using assms ring_right_unique [OF assms] by auto
  then show ?thesis
    by (simp flip: mset_set_upto_eq_mset_upto)
qed

lemma filter_ring_left:
  assumes "j < D"
  shows "filter_mset (\<lambda>i. (i + D - 1) mod D = j) (mset [0..<D]) = {#(j + 1) mod D#}"
proof -
  have "{i \<in> {0..<D}. (i + D - 1) mod D = j} = {(j + 1) mod D}"
    using assms ring_left_unique [OF assms] by auto
  then show ?thesis
    by (simp flip: mset_set_upto_eq_mset_upto)
qed

lemma drop_worst_split:
  assumes "3 \<le> length deme" and "ascending_rearrangement fitness deme (std_sort deme)"
  shows "\<exists>w1 w2. std_sort deme = w1 # w2 # drop_worst std_sort deme \<and>
           (\<forall>y\<in>set (drop_worst std_sort deme). fitness w1 \<le> fitness y \<and> fitness w2 \<le> fitness y)"
proof -
  have "length (std_sort deme) = length deme"
    using assms(2) by (metis ascending_rearrangement_def mset_eq_length)
  then obtain w1 w2 rest where s: "std_sort deme = w1 # w2 # rest"
    using assms(1) by (cases "std_sort deme" rule: remdups_adj.cases) auto
  have "sorted (map fitness (std_sort deme))"
    using assms(2) by (simp add: ascending_rearrangement_def)
  then have "\<forall>y\<in>set rest. fitness w1 \<le> fitness y \<and> fitness w2 \<le> fitness y"
    unfolding s by auto
  then show ?thesis using s by (simp add: drop_worst_def)
qed

lemma drop_worst_best:
  assumes "3 \<le> length deme" and "ascending_rearrangement fitness deme (std_sort deme)"
  shows "length (drop_worst std_sort deme) = length deme - 2 \<and>
         max_element fitness (drop_worst std_sort deme) \<in> set deme \<and>
         (\<forall>x\<in>set deme. fitness x \<le> fitness (max_element fitness (drop_worst std_sort deme)))"
proof -
  obtain w1 w2 where s: "std_sort deme = w1 # w2 # drop_worst std_sort deme"
    and low: "\<forall>y\<in>set (drop_worst std_sort deme). fitness w1 \<le> fitness y \<and> fitness w2 \<le> fitness y"
    using drop_worst_split [where std_sort = std_sort, OF assms] by blast
  have "length (std_sort deme) = length deme"
    using assms(2) by (metis ascending_rearrangement_def mset_eq_length)
  then have len: "length (drop_worst std_sort deme) = length deme - 2"
    by (simp add: drop_worst_def)
  then have ne: "drop_worst std_sort deme \<noteq> []" using assms(1) by auto
  note best = max_element_greatest [OF ne, of fitness]
  have "set (std_sort deme) = set deme"
    using assms(2) by (metis ascending_rearrangement_def mset_eq_setD)
  then have set_eq: "set deme = insert w1 (insert w2 (set (drop_worst std_sort deme)))"
    using s by (metis list.simps(15))
  have "\<forall>x\<in>set deme. fitness x \<le> fitness (max_element fitness (drop_worst std_sort deme))"
  proof
    fix x assume "x \<in> set deme"
    then consider "x = w1" | "x = w2" | "x \<in> set (drop_worst std_sort deme)"
      using set_eq by auto
    then show "fitness x \<le> fitness (max_element fitness (drop_worst std_sort deme))"
      using best low by cases force+
  qed
  then show ?thesis using len best set_eq by auto
qed

text \<open>
  For demes of at least three individuals the event does what the spec describes,
  whatever order the sort leaves among equally fit individuals: the two dropped are no fitter
  than any that is kept, every deme receives the best of the deme before it and of the
  deme after it on the ring, each a fittest individual of its own deme, and every deme
  has as many individuals after the event as before it.
\<close>

lemma migration_large_demes:
  assumes "\<forall>deme\<in>set demes. 3 \<le> length deme"
    and "\<forall>deme\<in>set demes. ascending_rearrangement fitness deme (std_sort deme)"
  shows "\<exists>r. migration fitness std_sort demes = Some r \<and> length r = length demes \<and>
           (\<forall>j<length demes.
              length (r ! j) = length (demes ! j) \<and>
              mset (r ! j) =
                mset (drop_worst std_sort (demes ! j)) +
                {#max_element fitness
                    (drop_worst std_sort (demes ! ((j + length demes - 1) mod length demes))),
                  max_element fitness
                    (drop_worst std_sort (demes ! ((j + 1) mod length demes)))#} \<and>
              (\<exists>w1 w2. std_sort (demes ! j) = w1 # w2 # drop_worst std_sort (demes ! j) \<and>
                 (\<forall>y\<in>set (drop_worst std_sort (demes ! j)).
                    fitness w1 \<le> fitness y \<and> fitness w2 \<le> fitness y)) \<and>
              max_element fitness (drop_worst std_sort (demes ! j)) \<in> set (demes ! j) \<and>
              (\<forall>x\<in>set (demes ! j).
                 fitness x \<le> fitness (max_element fitness (drop_worst std_sort (demes ! j)))))"
proof -
  let ?D = "length demes"
  let ?sp = "map (drop_worst std_sort) demes"
  let ?r = "fold (add_migrants fitness ?sp) [0..<?D] ?sp"
  have some: "migration fitness std_sort demes = Some ?r"
    using assms(1) by (auto simp: migration_def list_ex_iff Let_def)
  have len: "length ?r = ?D"
    by (simp add: fold_add_migrants_length)
  have each: "length (?r ! j) = length (demes ! j) \<and>
      mset (?r ! j) =
        mset (drop_worst std_sort (demes ! j)) +
        {#max_element fitness (drop_worst std_sort (demes ! ((j + ?D - 1) mod ?D))),
          max_element fitness (drop_worst std_sort (demes ! ((j + 1) mod ?D)))#} \<and>
      (\<exists>w1 w2. std_sort (demes ! j) = w1 # w2 # drop_worst std_sort (demes ! j) \<and>
         (\<forall>y\<in>set (drop_worst std_sort (demes ! j)).
            fitness w1 \<le> fitness y \<and> fitness w2 \<le> fitness y)) \<and>
      max_element fitness (drop_worst std_sort (demes ! j)) \<in> set (demes ! j) \<and>
      (\<forall>x\<in>set (demes ! j).
         fitness x \<le> fitness (max_element fitness (drop_worst std_sort (demes ! j))))"
    if j: "j < ?D" for j
  proof -
    have big: "3 \<le> length (demes ! j)" using assms(1) j by simp
    have asc: "ascending_rearrangement fitness (demes ! j) (std_sort (demes ! j))"
      using assms(2) j by simp
    have "0 < ?D" using j by (cases demes) auto
    then have jl: "(j + ?D - 1) mod ?D < ?D" and jr: "(j + 1) mod ?D < ?D"
      by (rule mod_less_divisor)+
    have "mset (?r ! j) =
        mset (?sp ! j) +
        image_mset (\<lambda>i. max_element fitness (?sp ! i))
          (filter_mset (\<lambda>i. (i + 1) mod length ?sp = j) (mset [0..<?D])) +
        image_mset (\<lambda>i. max_element fitness (?sp ! i))
          (filter_mset (\<lambda>i. (i + length ?sp - 1) mod length ?sp = j) (mset [0..<?D]))"
      using fold_add_migrants_nth [of ?sp ?sp j fitness "[0..<?D]"] j by simp
    then have m: "mset (?r ! j) =
        mset (drop_worst std_sort (demes ! j)) +
        {#max_element fitness (drop_worst std_sort (demes ! ((j + ?D - 1) mod ?D))),
          max_element fitness (drop_worst std_sort (demes ! ((j + 1) mod ?D)))#}"
      using filter_ring_right [OF j] filter_ring_left [OF j] j jl jr by simp
    have "size (mset (?r ! j)) = length (drop_worst std_sort (demes ! j)) + 2"
      unfolding m by simp
    then have l: "length (?r ! j) = length (demes ! j)"
      using drop_worst_best [where std_sort = std_sort, OF big asc] big by simp
    show ?thesis
      using l m drop_worst_split [where std_sort = std_sort, OF big asc] drop_worst_best [where std_sort = std_sort, OF big asc]
      by blast
  qed
  show ?thesis
    using some len each by blast
qed

lemma sort_key_ascending_rearrangement:
  "ascending_rearrangement fitness deme (sort_key fitness deme)"
  by (simp add: ascending_rearrangement_def)

lemma migration_example:
  "migration (real_of_int \<circ> sum_list) (sort_key (real_of_int \<circ> sum_list))
     [[[1], [5], [3], [4]], [[7], [2], [9]], [[6], [8], [0], [11]]] =
   Some [[[4], [5], [9], [11]], [[9], [5], [11]], [[8], [11], [5], [9]]]"
  by (simp add: migration_def drop_worst_def add_migrants_def max_element_def upt_rec Let_def)

text \<open>
  Claim C5 (the code departs from it).  The claim is about every migration event.  On
  demes of two individuals, which the program builds when it is started with 25 demes
  for its population of 50, the event has no defined result: both individuals of every
  deme are dropped, and the best of an empty deme is read.  The same holds for any
  deme of fewer than three individuals, whatever the fitness and the sort.
\<close>

theorem migration_small_demes_undefined:
  "migration fitness std_sort [[a1, a2], [b1, b2]] = None \<and>
   migration fitness std_sort ([a1, a2] # demes) = None \<and>
   migration fitness std_sort ([a1] # demes) = None"
  by (simp add: migration_def)

section \<open>Properties of brute force\<close>

lemma replace_first_greater_None:
  "replace_first_greater x zs = None \<longleftrightarrow> (\<forall>z\<in>set zs. z \<le> x)"
  by (induction zs) (auto split: option.splits)

lemma replace_first_greater_Some:
  "replace_first_greater x zs = Some (y, r) \<Longrightarrow>
   x < y \<and> y \<in> set zs \<and> mset (y # r) = mset (x # zs)"
proof (induction zs arbitrary: r)
  case Nil
  then show ?case by simp
next
  case (Cons z zs)
  show ?case
  proof (cases "x < z")
    case True
    then show ?thesis using Cons.prems by auto
  next
    case False
    then obtain r' where r': "replace_first_greater x zs = Some (y, r')" "r = z # r'"
      using Cons.prems by (auto split: option.splits)
    from Cons.IH [OF r'(1)] r'(2) show ?thesis by auto
  qed
qed

lemma replace_first_greater_sorted:
  "replace_first_greater x zs = Some (y, r) \<Longrightarrow> sorted zs \<Longrightarrow>
   sorted r \<and> (\<forall>z\<in>set zs. x < z \<longrightarrow> y \<le> z)"
proof (induction zs arbitrary: r)
  case Nil
  then show ?case by simp
next
  case (Cons z zs)
  show ?case
  proof (cases "x < z")
    case True
    then have "y = z" "r = x # zs" using Cons.prems(1) by auto
    moreover have "\<forall>w\<in>set zs. x \<le> w" using Cons.prems(2) True by fastforce
    ultimately show ?thesis using Cons.prems(2) by auto
  next
    case False
    then obtain r' where r': "replace_first_greater x zs = Some (y, r')" "r = z # r'"
      using Cons.prems by (auto split: option.splits)
    have s: "sorted zs" "\<forall>w\<in>set zs. z \<le> w" using Cons.prems(2) by auto
    from Cons.IH [OF r'(1) s(1)] have ih: "sorted r'" "\<forall>w\<in>set zs. x < w \<longrightarrow> y \<le> w"
      by auto
    have "set r' \<subseteq> insert x (set zs)"
      using replace_first_greater_Some [OF r'(1)]
      by (metis list.simps(15) set_mset_mset set_subset_Cons)
    moreover have "z \<le> x" using False by simp
    ultimately have "\<forall>w\<in>set r'. z \<le> w" using s(2) by auto
    then show ?thesis using ih r'(2) False by auto
  qed
qed

lemma sorted_least:
  "sorted r \<Longrightarrow> mset zs = mset r \<Longrightarrow> r \<le> (zs :: nat list)"
proof (induction r arbitrary: zs)
  case Nil
  then show ?case by simp
next
  case (Cons a r)
  then obtain b zs' where zs: "zs = b # zs'" by (cases zs) auto
  have "b \<in> set (a # r)" using Cons.prems(2) zs by (metis list.set_intros(1) mset_eq_setD)
  then have ab: "a \<le> b" using Cons.prems(1) by auto
  show ?case
  proof (cases "a = b")
    case True
    then have "mset zs' = mset r" using Cons.prems(2) zs by simp
    then show ?thesis using Cons.IH [of zs'] Cons.prems(1) True zs by simp
  next
    case False
    then show ?thesis using ab zs by simp
  qed
qed

lemma rev_sorted_greatest:
  "sorted (rev xs) \<Longrightarrow> mset zs = mset xs \<Longrightarrow> zs \<le> (xs :: nat list)"
proof (induction xs arbitrary: zs)
  case Nil
  then show ?case by simp
next
  case (Cons a xs)
  then obtain b zs' where zs: "zs = b # zs'" by (cases zs) auto
  have s: "sorted (rev xs)" "\<forall>w\<in>set xs. w \<le> a"
    using Cons.prems(1) by (auto simp: sorted_append)
  have "b \<in> set (a # xs)" using Cons.prems(2) zs by (metis list.set_intros(1) mset_eq_setD)
  then have ab: "b \<le> a" using s(2) by auto
  show ?case
  proof (cases "a = b")
    case True
    then have "mset zs' = mset xs" using Cons.prems(2) zs by simp
    then show ?thesis using Cons.IH [OF s(1), of zs'] True zs by simp
  next
    case False
    then show ?thesis using ab zs by simp
  qed
qed

lemma next_permutation_None:
  "next_permutation xs = None \<Longrightarrow> sorted (rev xs)"
proof (induction xs)
  case Nil
  then show ?case by simp
next
  case (Cons x xs)
  then have n: "next_permutation xs = None" "replace_first_greater x (rev xs) = None"
    by (auto split: option.splits)
  then show ?case
    using Cons.IH replace_first_greater_None [of x "rev xs"] by (auto simp: sorted_append)
qed

lemma next_permutation_Some:
  "next_permutation xs = Some ys \<Longrightarrow> mset ys = mset xs \<and> xs < ys"
proof (induction xs arbitrary: ys)
  case Nil
  then show ?case by simp
next
  case (Cons x xs)
  show ?case
  proof (cases "next_permutation xs")
    case (Some ys')
    then show ?thesis using Cons by auto
  next
    case None
    then obtain y r where r: "replace_first_greater x (rev xs) = Some (y, r)" "ys = y # r"
      using Cons.prems by (auto split: option.splits)
    then show ?thesis using replace_first_greater_Some [OF r(1)] by auto
  qed
qed

lemma next_permutation_immediate:
  "next_permutation xs = Some ys \<Longrightarrow> mset zs = mset xs \<Longrightarrow> xs < zs \<Longrightarrow> ys \<le> zs"
proof (induction xs arbitrary: ys zs)
  case Nil
  then show ?case by simp
next
  case (Cons x xs)
  from Cons.prems(2) obtain z zs' where zs: "zs = z # zs'" by (cases zs) auto
  from Cons.prems(3) zs have ord: "x < z \<or> x = z \<and> xs < zs'" by simp
  show ?case
  proof (cases "next_permutation xs")
    case (Some ys')
    then have ys: "ys = x # ys'" using Cons.prems(1) by simp
    show ?thesis
    proof (cases "x = z")
      case True
      then have "mset zs' = mset xs" "xs < zs'" using Cons.prems(2) zs ord by auto
      then show ?thesis using Cons.IH [OF Some] ys zs True by simp
    next
      case False
      then show ?thesis using ord ys zs by simp
    qed
  next
    case None
    then obtain y r where r: "replace_first_greater x (rev xs) = Some (y, r)" "ys = y # r"
      using Cons.prems(1) by (auto split: option.splits)
    have desc: "sorted (rev xs)" using next_permutation_None [OF None] .
    have xz: "x < z"
    proof (rule ccontr)
      assume "\<not> x < z"
      then have "x = z" "xs < zs'" using ord by auto
      moreover have "mset zs' = mset xs" using Cons.prems(2) zs \<open>x = z\<close> by simp
      ultimately show False using rev_sorted_greatest [OF desc, of zs'] by simp
    qed
    have "z \<in> set (x # xs)" using Cons.prems(2) zs by (metis list.set_intros(1) mset_eq_setD)
    then have "z \<in> set (rev xs)" using xz by auto
    then have yz: "y \<le> z"
      using replace_first_greater_sorted [OF r(1) desc] xz by blast
    show ?thesis
    proof (cases "y = z")
      case True
      have "mset (y # r) = mset (z # zs')"
        using replace_first_greater_Some [OF r(1)] Cons.prems(2) zs by simp
      then have "mset zs' = mset r" using True by simp
      moreover have "sorted r" using replace_first_greater_sorted [OF r(1) desc] by simp
      ultimately show ?thesis using sorted_least [of r zs'] True r(2) zs by simp
    next
      case False
      then show ?thesis using yz r(2) zs by simp
    qed
  qed
qed

lemma next_solution_cases:
  obtains (wrap) "next_permutation c = None" "next_solution c = rev c" "sorted (rev c)"
  | (succ) c' where "next_permutation c = Some c'" "next_solution c = c'"
      "mset c' = mset c" "c < c'"
proof (cases "next_permutation c")
  case None
  then show ?thesis
    using wrap next_permutation_None [OF None] by (simp add: next_solution_def)
next
  case (Some c')
  then show ?thesis
    using succ next_permutation_Some [OF Some] by (simp add: next_solution_def)
qed

lemma later_permutations_shrink:
  assumes "mset c' = mset c" "c < (c' :: nat list)"
  shows "card {p. mset p = mset c' \<and> c' < p} < card {p. mset p = mset c \<and> c < p}"
proof (rule psubset_card_mono)
  show "finite {p. mset p = mset c \<and> c < p}"
    using mset_eq_finite [of c] by simp
  have "c' \<in> {p. mset p = mset c \<and> c < p}" using assms by simp
  moreover have "c' \<notin> {p. mset p = mset c' \<and> c' < p}" by simp
  moreover have "{p. mset p = mset c' \<and> c' < p} \<subseteq> {p. mset p = mset c \<and> c < p}"
    using assms by auto
  ultimately show "{p. mset p = mset c' \<and> c' < p} \<subset> {p. mset p = mset c \<and> c < p}"
    by blast
qed

lemma brute_force_loop_up:
  assumes "mset c = mset s" "c < s"
  shows "\<exists>b. brute_force_loop goal s c best = Some b \<and> goal b \<le> goal best \<and>
           (b = best \<or> mset b = mset s) \<and>
           (\<forall>p. mset p = mset s \<and> c < p \<and> p \<le> s \<longrightarrow> goal b \<le> goal p)"
  using assms
proof (induction "card {p. mset p = mset c \<and> c < p}" arbitrary: c best rule: less_induct)
  case less
  show ?case
  proof (cases c rule: next_solution_cases)
    case wrap
    then have "s \<le> c" using rev_sorted_greatest [of c s] less.prems(1) by simp
    then show ?thesis using less.prems(2) by simp
  next
    case (succ c')
    let ?best = "if goal best > goal c' then c' else best"
    have c's: "c' \<le> s"
      using next_permutation_immediate [OF succ(1), of s] less.prems by simp
    have mc': "mset c' = mset s" using succ(3) less.prems(1) by simp
    have between: "p = c' \<or> c' < p" if "mset p = mset s" "c < p" for p
      using next_permutation_immediate [OF succ(1), of p] that less.prems(1) by auto
    show ?thesis
    proof (cases "c' = s")
      case True
      have "brute_force_loop goal s c best = Some ?best"
        using succ(2) True by (subst brute_force_loop.simps) (simp add: Let_def)
      moreover have "\<forall>p. mset p = mset s \<and> c < p \<and> p \<le> s \<longrightarrow> goal ?best \<le> goal p"
        using between True by fastforce
      ultimately show ?thesis using mc' by auto
    next
      case False
      then have lt: "c' < s" using c's by simp
      have unfold: "brute_force_loop goal s c best = brute_force_loop goal s c' ?best"
        using succ(2) False by (subst brute_force_loop.simps) (simp add: Let_def)
      from less.hyps [OF later_permutations_shrink [OF succ(3,4)] mc' lt, of ?best]
      obtain b where b: "brute_force_loop goal s c' ?best = Some b" "goal b \<le> goal ?best"
        "b = ?best \<or> mset b = mset s"
        "\<forall>p. mset p = mset s \<and> c' < p \<and> p \<le> s \<longrightarrow> goal b \<le> goal p"
        by blast
      have "goal b \<le> goal best" using b(2) by (simp split: if_splits)
      moreover have "b = best \<or> mset b = mset s" using b(3) mc' by (auto split: if_splits)
      moreover have "goal b \<le> goal p" if "mset p = mset s" "c < p" "p \<le> s" for p
      proof -
        from between [OF that(1,2)] show ?thesis
        proof
          assume "p = c'"
          then show ?thesis using b(2) by (simp split: if_splits)
        next
          assume "c' < p"
          then show ?thesis using b(4) that by blast
        qed
      qed
      ultimately show ?thesis using unfold b(1) by auto
    qed
  qed
qed

lemma brute_force_loop_all:
  assumes "mset c = mset s" "s \<le> c"
  shows "\<exists>b. brute_force_loop goal s c best = Some b \<and> goal b \<le> goal best \<and>
           (b = best \<or> mset b = mset s) \<and>
           (\<forall>p. mset p = mset s \<and> (c < p \<or> p \<le> s) \<longrightarrow> goal b \<le> goal p)"
  using assms
proof (induction "card {p. mset p = mset c \<and> c < p}" arbitrary: c best rule: less_induct)
  case less
  show ?case
  proof (cases c rule: next_solution_cases)
    case wrap
    let ?m = "rev c"
    let ?best = "if goal best > goal ?m then ?m else best"
    have top: "p \<le> c" if "mset p = mset s" for p
      using rev_sorted_greatest [OF wrap(3), of p] that less.prems(1) by simp
    have mm: "mset ?m = mset s" using less.prems(1) by simp
    have bottom: "?m \<le> p" if "mset p = mset s" for p
      using sorted_least [OF wrap(3), of p] that less.prems(1) by simp
    show ?thesis
    proof (cases "?m = s")
      case True
      have "brute_force_loop goal s c best = Some ?best"
        using wrap(2) True by (subst brute_force_loop.simps) (simp add: Let_def)
      moreover have "goal ?best \<le> goal p" if "mset p = mset s" "c < p \<or> p \<le> s" for p
      proof -
        have "p = ?m" using that top [OF that(1)] bottom [OF that(1)] True by auto
        then show ?thesis by simp
      qed
      ultimately show ?thesis using mm by auto
    next
      case False
      then have lt: "?m < s" using bottom [of s] by simp
      have unfold: "brute_force_loop goal s c best = brute_force_loop goal s ?m ?best"
        using wrap(2) False by (subst brute_force_loop.simps) (simp add: Let_def)
      from brute_force_loop_up [OF mm lt, of goal ?best]
      obtain b where b: "brute_force_loop goal s ?m ?best = Some b" "goal b \<le> goal ?best"
        "b = ?best \<or> mset b = mset s"
        "\<forall>p. mset p = mset s \<and> ?m < p \<and> p \<le> s \<longrightarrow> goal b \<le> goal p"
        by blast
      have "goal b \<le> goal best" using b(2) by (simp split: if_splits)
      moreover have "b = best \<or> mset b = mset s" using b(3) mm by (auto split: if_splits)
      moreover have "goal b \<le> goal p" if "mset p = mset s" "c < p \<or> p \<le> s" for p
      proof -
        have ps: "p \<le> s" using that top [OF that(1)] by auto
        show ?thesis
        proof (cases "p = ?m")
          case True
          then show ?thesis using b(2) by (simp split: if_splits)
        next
          case False
          then have "?m < p" using bottom [OF that(1)] by simp
          then show ?thesis using b(4) that(1) ps by blast
        qed
      qed
      ultimately show ?thesis using unfold b(1) by auto
    qed
  next
    case (succ c')
    let ?best = "if goal best > goal c' then c' else best"
    have mc': "mset c' = mset s" using succ(3) less.prems(1) by simp
    have sc': "s \<le> c'" "c' \<noteq> s" using succ(4) less.prems(2) by auto
    have between: "p = c' \<or> c' < p" if "mset p = mset s" "c < p" for p
      using next_permutation_immediate [OF succ(1), of p] that less.prems(1) by auto
    have unfold: "brute_force_loop goal s c best = brute_force_loop goal s c' ?best"
      using succ(2) sc'(2) by (subst brute_force_loop.simps) (simp add: Let_def)
    from less.hyps [OF later_permutations_shrink [OF succ(3,4)] mc' sc'(1), of ?best]
    obtain b where b: "brute_force_loop goal s c' ?best = Some b" "goal b \<le> goal ?best"
      "b = ?best \<or> mset b = mset s"
      "\<forall>p. mset p = mset s \<and> (c' < p \<or> p \<le> s) \<longrightarrow> goal b \<le> goal p"
      by blast
    have "goal b \<le> goal best" using b(2) by (simp split: if_splits)
    moreover have "b = best \<or> mset b = mset s" using b(3) mc' by (auto split: if_splits)
    moreover have "goal b \<le> goal p" if "mset p = mset s" "c < p \<or> p \<le> s" for p
    proof (cases "p \<le> s")
      case True
      then show ?thesis using b(4) that(1) by blast
    next
      case False
      then have "c < p" using that(2) by simp
      from between [OF that(1) this] show ?thesis
      proof
        assume "p = c'"
        then show ?thesis using b(2) by (simp split: if_splits)
      next
        assume "c' < p"
        then show ?thesis using b(4) that(1) by blast
      qed
    qed
    ultimately show ?thesis using unfold b(1) by auto
  qed
qed

text \<open>
  Claim C1.  For every problem with at least one city and every objective, the loop of
  \<open>brute_force_find_solution\<close> terminates, and the tour it returns is a permutation of
  the cities whose goal is at most the goal of every permutation of the cities.
\<close>

theorem brute_force_find_solution_optimal:
  assumes "initial \<noteq> []"
  shows "\<exists>best. brute_force_find_solution goal initial = Some best \<and>
           mset best = mset initial \<and>
           (\<forall>p. mset p = mset initial \<longrightarrow> goal best \<le> goal p)"
proof -
  from brute_force_loop_all [of initial initial goal initial]
  obtain b where b: "brute_force_loop goal initial initial initial = Some b"
    "b = initial \<or> mset b = mset initial"
    "\<forall>p. mset p = mset initial \<and> (initial < p \<or> p \<le> initial) \<longrightarrow> goal b \<le> goal p"
    by auto
  have "\<forall>p. mset p = mset initial \<longrightarrow> goal b \<le> goal p"
    using b(3) by (meson not_le_imp_less)
  then show ?thesis
    using b(1,2) by (auto simp: brute_force_find_solution_def)
qed

lemma brute_force_example:
  "brute_force_find_solution (\<lambda>p. real (p ! 0 + 2 * p ! 1 + 3 * p ! 2)) [0, 1, 2] =
     Some [2, 1, 0]"
  by (simp add: brute_force_find_solution_def brute_force_loop.simps next_solution_def Let_def)

theorem brute_force_find_solution_optimal_witness:
  "[0, 1, 2 :: nat] \<noteq> [] \<and>
   brute_force_find_solution (\<lambda>p. real (p ! 0 + 2 * p ! 1 + 3 * p ! 2)) [0, 1, 2] =
     Some [2, 1, 0] \<and>
   mset [2, 1, 0 :: nat] = mset [0, 1, 2] \<and>
   real ([2, 1, 0] ! 0 + 2 * [2, 1, 0] ! 1 + 3 * [2, 1, 0] ! 2)
     \<le> real ([1, 0, 2] ! 0 + 2 * [1, 0, 2] ! 1 + 3 * [1, 0, 2] ! 2)"
proof -
  have ne: "[0, 1, 2 :: nat] \<noteq> []" by simp
  have perm: "mset [1, 0, 2 :: nat] = mset [0, 1, 2]" by simp
  from brute_force_find_solution_optimal [OF ne, of "\<lambda>p. real (p ! 0 + 2 * p ! 1 + 3 * p ! 2)"]
  obtain best where best:
    "brute_force_find_solution (\<lambda>p. real (p ! 0 + 2 * p ! 1 + 3 * p ! 2)) [0, 1, 2] = Some best"
    "mset best = mset [0, 1, 2]"
    "\<forall>p. mset p = mset [0, 1, 2] \<longrightarrow>
       real (best ! 0 + 2 * best ! 1 + 3 * best ! 2) \<le> real (p ! 0 + 2 * p ! 1 + 3 * p ! 2)"
    by blast
  have b: "best = [2, 1, 0]" using best(1) brute_force_example by simp
  have "real (best ! 0 + 2 * best ! 1 + 3 * best ! 2)
          \<le> real ([1, 0, 2] ! 0 + 2 * [1, 0, 2] ! 1 + 3 * [1, 0, 2] ! 2)"
    using best(3) perm by blast
  then show ?thesis
    using b best(1,2) by simp
qed

end
